theory Spec2Isabelle
  imports Complex_Main "HOL-Library.Multiset"
begin

section \<open>JavaScript values used by the router\<close>

text \<open>A qubit id as the JavaScript code holds it: a non-negative integer, or
  \<open>undefined\<close> (\<open>None\<close>), which is what reading an array out of range gives.\<close>

type_synonym jsval = "nat option"

text \<open>A JavaScript number that may be \<open>Infinity\<close>: hop counts and the distance penalty.\<close>

datatype num = Fin int | Infinity

fun num_add :: "num \<Rightarrow> num \<Rightarrow> num" where
  "num_add (Fin a) (Fin b) = Fin (a + b)"
| "num_add _ _ = Infinity"

text \<open>\<open>x || d\<close> on an optional number: \<open>undefined\<close> and \<open>0\<close> are falsy.\<close>

definition js_or :: "'a::zero option \<Rightarrow> 'a \<Rightarrow> 'a" where
  "js_or x d = (case x of None \<Rightarrow> d | Some v \<Rightarrow> if v = 0 then d else v)"

section \<open>hardware/Topology.ts\<close>

record params =
  p_qubits :: "int option"
  p_rows :: "int option"
  p_cols :: "int option"

type_synonym graph = "(nat \<times> nat list) list"

definition lnn_graph :: "int \<Rightarrow> graph" where
  "lnn_graph n = map (\<lambda>i. (i, (if i > 0 then [i - 1] else []) @
                               (if int i < n - 1 then [i + 1] else []))) [0..<nat n]"

definition grid_cell :: "int \<Rightarrow> int \<Rightarrow> nat \<Rightarrow> nat \<Rightarrow> nat \<times> nat list" where
  "grid_cell rws cls r c =
     (let ident = r * nat cls + c in
      (ident, (if c > 0 then [ident - 1] else []) @
              (if int c < cls - 1 then [ident + 1] else []) @
              (if r > 0 then [ident - nat cls] else []) @
              (if int r < rws - 1 then [ident + nat cls] else [])))"

definition grid_graph :: "int \<Rightarrow> int \<Rightarrow> graph" where
  "grid_graph rws cls =
     concat (map (\<lambda>r. map (\<lambda>c. grid_cell rws cls r c) [0..<nat cls]) [0..<nat rws])"

definition star_graph :: "int \<Rightarrow> graph" where
  "star_graph n = (0, [1..<nat n]) # map (\<lambda>i. (i, [0])) [1..<nat n]"

definition buildGraph :: "string \<Rightarrow> params \<Rightarrow> graph" where
  "buildGraph ty ps =
     (if ty = ''lnn'' then lnn_graph (js_or (p_qubits ps) 5)
      else if ty = ''grid2d'' then grid_graph (js_or (p_rows ps) 3) (js_or (p_cols ps) 3)
      else if ty = ''star'' then star_graph (js_or (p_qubits ps) 5)
      else [])"

text \<open>\<open>this.graph[node] || []\<close>; \<open>graph[undefined]\<close> is \<open>undefined\<close>.\<close>

definition adj :: "graph \<Rightarrow> jsval \<Rightarrow> jsval list" where
  "adj g v = (case v of None \<Rightarrow> []
              | Some q \<Rightarrow> (case map_of g q of None \<Rightarrow> [] | Some ns \<Rightarrow> map Some ns))"

definition isConnected_g :: "graph \<Rightarrow> jsval \<Rightarrow> jsval \<Rightarrow> bool" where
  "isConnected_g g q1 q2 = (q2 \<noteq> None \<and> q2 \<in> set (adj g q1))"

text \<open>The nodes a search can meet beyond its queue: every listed neighbour.\<close>

definition nbr_nodes :: "graph \<Rightarrow> jsval set" where
  "nbr_nodes g = Some ` (\<Union>(k, ns) \<in> set g. set ns)"

function bfs_dist :: "graph \<Rightarrow> jsval \<Rightarrow> jsval list \<Rightarrow> (jsval \<times> nat) list \<Rightarrow> num" where
  "bfs_dist g q2 visited [] = Infinity"
| "bfs_dist g q2 visited ((node, dst) # queue) =
     (if node = q2 then Fin (int dst)
      else if node \<in> set visited then bfs_dist g q2 visited queue
      else bfs_dist g q2 (node # visited)
             (queue @ map (\<lambda>nb. (nb, dst + 1))
                        (filter (\<lambda>nb. nb \<notin> set (node # visited)) (adj g node))))"
  by pat_completeness auto
termination
proof (relation "inv_image (less_than <*lex*> less_than)
    (\<lambda>(g, q2, visited, queue). (card ((nbr_nodes g \<union> fst ` set queue) - set visited), length queue))",
    goal_cases)
  case 1
  show ?case by auto
next
  case (2 g q2 visited node dst queue)
  have "(nbr_nodes g \<union> fst ` set queue) - set visited
        \<subseteq> (nbr_nodes g \<union> fst ` set ((node, dst) # queue)) - set visited"
    by auto
  moreover have "finite ((nbr_nodes g \<union> fst ` set ((node, dst) # queue)) - set visited)"
    by (auto simp: nbr_nodes_def)
  ultimately have "card ((nbr_nodes g \<union> fst ` set queue) - set visited)
        \<le> card ((nbr_nodes g \<union> fst ` set ((node, dst) # queue)) - set visited)"
    by (rule card_mono[rotated])
  then show ?case by auto
next
  case (3 g q2 visited node dst queue)
  let ?new = "queue @ map (\<lambda>nb. (nb, dst + 1))
                        (filter (\<lambda>nb. nb \<notin> set (node # visited)) (adj g node))"
  have adj_sub: "set (adj g node) \<subseteq> nbr_nodes g"
  proof
    fix x assume "x \<in> set (adj g node)"
    then obtain q ns y where "Some ns = map_of g q" "y \<in> set ns" "x = Some y"
      by (auto simp: adj_def split: option.splits)
    moreover from this have "(q, ns) \<in> set g" by (auto dest: map_of_SomeD[OF sym])
    ultimately show "x \<in> nbr_nodes g" unfolding nbr_nodes_def by force
  qed
  have fin: "finite ((nbr_nodes g \<union> fst ` set ((node, dst) # queue)) - set visited)"
    by (auto simp: nbr_nodes_def)
  have "(nbr_nodes g \<union> fst ` set ?new) - set (node # visited)
        \<subset> (nbr_nodes g \<union> fst ` set ((node, dst) # queue)) - set visited"
    using 3 adj_sub by (auto simp: image_Un image_image)
  from psubset_card_mono[OF fin this] show ?case by simp
qed


function bfs_path :: "graph \<Rightarrow> jsval \<Rightarrow> jsval list \<Rightarrow> (jsval \<times> jsval list) list \<Rightarrow> jsval list" where
  "bfs_path g q2 visited [] = []"
| "bfs_path g q2 visited ((node, path) # queue) =
     (if node = q2 then path
      else if node \<in> set visited then bfs_path g q2 visited queue
      else bfs_path g q2 (node # visited)
             (queue @ map (\<lambda>nb. (nb, path @ [nb]))
                        (filter (\<lambda>nb. nb \<notin> set (node # visited)) (adj g node))))"
  by pat_completeness auto
termination
proof (relation "inv_image (less_than <*lex*> less_than)
    (\<lambda>(g, q2, visited, queue). (card ((nbr_nodes g \<union> fst ` set queue) - set visited), length queue))",
    goal_cases)
  case 1
  show ?case by auto
next
  case (2 g q2 visited node path queue)
  have "(nbr_nodes g \<union> fst ` set queue) - set visited
        \<subseteq> (nbr_nodes g \<union> fst ` set ((node, path) # queue)) - set visited"
    by auto
  moreover have "finite ((nbr_nodes g \<union> fst ` set ((node, path) # queue)) - set visited)"
    by (auto simp: nbr_nodes_def)
  ultimately have "card ((nbr_nodes g \<union> fst ` set queue) - set visited)
        \<le> card ((nbr_nodes g \<union> fst ` set ((node, path) # queue)) - set visited)"
    by (rule card_mono[rotated])
  then show ?case by auto
next
  case (3 g q2 visited node path queue)
  let ?new = "queue @ map (\<lambda>nb. (nb, path @ [nb]))
                        (filter (\<lambda>nb. nb \<notin> set (node # visited)) (adj g node))"
  have adj_sub: "set (adj g node) \<subseteq> nbr_nodes g"
  proof
    fix x assume "x \<in> set (adj g node)"
    then obtain q ns y where "Some ns = map_of g q" "y \<in> set ns" "x = Some y"
      by (auto simp: adj_def split: option.splits)
    moreover from this have "(q, ns) \<in> set g" by (auto dest: map_of_SomeD[OF sym])
    ultimately show "x \<in> nbr_nodes g" unfolding nbr_nodes_def by force
  qed
  have fin: "finite ((nbr_nodes g \<union> fst ` set ((node, path) # queue)) - set visited)"
    by (auto simp: nbr_nodes_def)
  have "(nbr_nodes g \<union> fst ` set ?new) - set (node # visited)
        \<subset> (nbr_nodes g \<union> fst ` set ((node, path) # queue)) - set visited"
    using 3 adj_sub by (auto simp: image_Un image_image)
  from psubset_card_mono[OF fin this] show ?case by simp
qed

text \<open>The key of the distance memo: \<open>`${Math.min(q1, q2)}-${Math.max(q1, q2)}`\<close>. With an
  \<open>undefined\<close> argument both \<open>Math.min\<close> and \<open>Math.max\<close> are \<open>NaN\<close>, so every such
  call shares the one key \<open>"NaN-NaN"\<close> (\<open>None\<close>).\<close>

definition cache_key :: "jsval \<Rightarrow> jsval \<Rightarrow> (nat \<times> nat) option" where
  "cache_key q1 q2 = (case (q1, q2) of (Some a, Some b) \<Rightarrow> Some (min a b, max a b) | _ \<Rightarrow> None)"

record HardwareTopology =
  htype :: string
  hparams :: params
  graph :: graph
  distanceCache :: "(nat \<times> nat) option \<Rightarrow> num option"

definition new_HardwareTopology :: "string \<Rightarrow> params \<Rightarrow> HardwareTopology" where
  "new_HardwareTopology ty ps =
     \<lparr>htype = ty, hparams = ps, graph = buildGraph ty ps, distanceCache = (\<lambda>_. None)\<rparr>"

datatype error = TypeError | RangeError

text \<open>Neither the constructor nor \<open>buildGraph\<close> contains a \<open>throw\<close>, and nothing they
  evaluate can fail: the constructor returns normally on every input.\<close>

definition construct_HardwareTopology :: "string \<Rightarrow> params \<Rightarrow> error + HardwareTopology" where
  "construct_HardwareTopology ty ps = Inr (new_HardwareTopology ty ps)"

definition isConnected :: "HardwareTopology \<Rightarrow> jsval \<Rightarrow> jsval \<Rightarrow> bool" where
  "isConnected hw q1 q2 = isConnected_g (graph hw) q1 q2"

definition distance :: "HardwareTopology \<Rightarrow> jsval \<Rightarrow> jsval \<Rightarrow> num \<times> HardwareTopology" where
  "distance hw q1 q2 =
     (let key = cache_key q1 q2 in
      case distanceCache hw key of
        Some d \<Rightarrow> (d, hw)
      | None \<Rightarrow>
          (let d = bfs_dist (graph hw) q2 [] [(q1, 0)]
           in (d, hw\<lparr>distanceCache := (distanceCache hw)(key \<mapsto> d)\<rparr>)))"

definition getShortestPath :: "HardwareTopology \<Rightarrow> jsval \<Rightarrow> jsval \<Rightarrow> jsval list" where
  "getShortestPath hw q1 q2 = bfs_path (graph hw) q2 [] [(q1, [q1])]"

section \<open>compiler/QuantumCircuit.ts\<close>

text \<open>A gate keeps its \<open>type\<close> and its operand list; \<open>params\<close> and the generated \<open>id\<close>
  string are never read by the mappers and are left out.\<close>

record gate =
  gtype :: string
  qubits :: "int list"

record QuantumCircuit =
  nQubits :: int
  gates :: "gate list"

text \<open>The constructor and \<open>addGate\<close> contain no \<open>throw\<close>: they return on every input.\<close>

definition new_QuantumCircuit :: "int \<Rightarrow> error + QuantumCircuit" where
  "new_QuantumCircuit n = Inr \<lparr>nQubits = n, gates = []\<rparr>"

definition addGate :: "QuantumCircuit \<Rightarrow> string \<Rightarrow> int list \<Rightarrow> error + QuantumCircuit" where
  "addGate c ty qs = Inr (c\<lparr>gates := gates c @ [\<lparr>gtype = ty, qubits = qs\<rparr>]\<rparr>)"

definition getTwoQubitGates :: "QuantumCircuit \<Rightarrow> gate list" where
  "getTwoQubitGates c = filter (\<lambda>g. length (qubits g) = 2) (gates c)"

section \<open>The layout array\<close>

text \<open>The layout is a JavaScript array. \<open>indexOf\<close> answers \<open>-1\<close> for a value that is
  not an element, and \<open>layout[-1]\<close> is then an ordinary property of the array object:
  reading it gives \<open>undefined\<close> until it is written, writing it stores the value without
  changing the elements. The spread \<open>[...layout]\<close> copies the elements only.\<close>

record layout =
  elems :: "jsval list"
  minus1 :: jsval

definition identity_layout :: "int \<Rightarrow> layout" where
  "identity_layout n = \<lparr>elems = map Some [0..<nat n], minus1 = None\<rparr>"

definition lget :: "layout \<Rightarrow> int \<Rightarrow> jsval" where
  "lget l i = (if i = -1 then minus1 l
               else if 0 \<le> i \<and> i < int (length (elems l)) then elems l ! nat i
               else None)"

text \<open>Written only at indices that \<open>indexOf\<close> returned: an element index or \<open>-1\<close>.\<close>

definition lset :: "layout \<Rightarrow> int \<Rightarrow> jsval \<Rightarrow> layout" where
  "lset l i v = (if i = -1 then l\<lparr>minus1 := v\<rparr>
                 else if 0 \<le> i \<and> i < int (length (elems l)) then l\<lparr>elems := (elems l)[nat i := v]\<rparr>
                 else l)"

fun indexOf :: "jsval list \<Rightarrow> jsval \<Rightarrow> int" where
  "indexOf [] x = -1"
| "indexOf (y # ys) x = (if y = x then 0 else (let i = indexOf ys x in if i = -1 then -1 else i + 1))"

text \<open>\<open>[layout[i], layout[j]] = [layout[j], layout[i]]\<close>: both reads, then the write at
  \<open>i\<close>, then the write at \<open>j\<close>.\<close>

definition swap_entries :: "layout \<Rightarrow> int \<Rightarrow> int \<Rightarrow> layout" where
  "swap_entries l i j = (let a = lget l j; b = lget l i in lset (lset l i a) j b)"

section \<open>Steps and mapping results\<close>

text \<open>A swap step is the object \<open>{type: 'swap', physical, logical, layout, inserted, depth}\<close>;
  a gate step is \<open>{type, qubits, logical, layout, inserted, depth}\<close>.\<close>

datatype step =
    Swap "jsval list" "int list" "jsval list" bool nat
  | Native string "jsval list" "int list" "jsval list" bool nat

fun is_swap :: "step \<Rightarrow> bool" where
  "is_swap (Swap _ _ _ _ _) = True"
| "is_swap (Native _ _ _ _ _ _) = False"

fun step_layout :: "step \<Rightarrow> jsval list" where
  "step_layout (Swap _ _ l _ _) = l"
| "step_layout (Native _ _ _ l _ _) = l"

fun step_inserted :: "step \<Rightarrow> bool" where
  "step_inserted (Swap _ _ _ i _) = i"
| "step_inserted (Native _ _ _ _ i _) = i"

fun step_depth :: "step \<Rightarrow> nat" where
  "step_depth (Swap _ _ _ _ d) = d"
| "step_depth (Native _ _ _ _ _ d) = d"

fun step_physical :: "step \<Rightarrow> jsval list" where
  "step_physical (Swap p _ _ _ _) = p"
| "step_physical (Native _ q _ _ _ _) = q"

record MappingResult =
  steps :: "step list"
  insertedSwaps :: nat
  depth :: nat
  distancePenalty :: num
  finalLayout :: "jsval list"

text \<open>The local variables of \<open>map()\<close>, and the hardware object whose memo the calls of
  \<open>distance\<close> fill.\<close>

record mstate =
  st_steps :: "step list"
  st_layout :: layout
  st_insertedSwaps :: nat
  st_depth :: nat
  st_distancePenalty :: num
  st_hw :: HardwareTopology

definition init_state :: "QuantumCircuit \<Rightarrow> HardwareTopology \<Rightarrow> mstate" where
  "init_state c hw = \<lparr>st_steps = [], st_layout = identity_layout (nQubits c), st_insertedSwaps = 0,
     st_depth = 0, st_distancePenalty = Fin 0, st_hw = hw\<rparr>"

definition result_of :: "'a mstate_scheme \<Rightarrow> MappingResult" where
  "result_of s = \<lparr>steps = st_steps s, insertedSwaps = st_insertedSwaps s, depth = st_depth s,
     distancePenalty = st_distancePenalty s, finalLayout = elems (st_layout s)\<rparr>"

text \<open>The body shared by the three swap loops: look both physical qubits up, exchange the two
  layout entries, push the swap step, count it.\<close>

definition push_swap :: "jsval \<Rightarrow> jsval \<Rightarrow> 'a mstate_scheme \<Rightarrow> 'a mstate_scheme" where
  "push_swap swapQ1 swapQ2 s =
     (let logQ1 = indexOf (elems (st_layout s)) swapQ1;
          logQ2 = indexOf (elems (st_layout s)) swapQ2;
          l = swap_entries (st_layout s) logQ1 logQ2
      in s\<lparr>st_layout := l,
           st_steps := st_steps s @ [Swap [swapQ1, swapQ2] [logQ1, logQ2] (elems l) True (st_depth s)],
           st_depth := st_depth s + 1,
           st_insertedSwaps := st_insertedSwaps s + 1\<rparr>)"

text \<open>\<open>distancePenalty += this.hardware.distance(layout[c], layout[t]) - 1\<close>\<close>

definition add_penalty :: "int \<Rightarrow> int \<Rightarrow> 'a mstate_scheme \<Rightarrow> 'a mstate_scheme" where
  "add_penalty c t s =
     (let (d, hw) = distance (st_hw s) (lget (st_layout s) c) (lget (st_layout s) t)
      in s\<lparr>st_hw := hw,
           st_distancePenalty := num_add (st_distancePenalty s) (num_add d (Fin (- 1)))\<rparr>)"

definition push_native :: "gate \<Rightarrow> 'a mstate_scheme \<Rightarrow> 'a mstate_scheme" where
  "push_native gt s =
     s\<lparr>st_steps := st_steps s @ [Native (gtype gt) (map (lget (st_layout s)) (qubits gt)) (qubits gt)
                                    (elems (st_layout s)) False (st_depth s)],
       st_depth := st_depth s + 1\<rparr>"

section \<open>optimizer/GreedyMapper.ts\<close>

partial_function (option) greedy_loop :: "int \<Rightarrow> int \<Rightarrow> mstate \<Rightarrow> mstate option" where
  "greedy_loop c t s =
     (if isConnected (st_hw s) (lget (st_layout s) c) (lget (st_layout s) t) then Some s
      else let path = getShortestPath (st_hw s) (lget (st_layout s) c) (lget (st_layout s) t) in
        if length path < 2 then Some s
        else greedy_loop c t (push_swap (path ! 0) (path ! 1) s))"

declare greedy_loop.simps [code]

definition greedy_gate :: "gate \<Rightarrow> mstate \<Rightarrow> mstate option" where
  "greedy_gate gt s =
     (if length (qubits gt) = 2 then
        (case greedy_loop (qubits gt ! 0) (qubits gt ! 1) s of
           None \<Rightarrow> None
         | Some s' \<Rightarrow> Some (push_native gt (add_penalty (qubits gt ! 0) (qubits gt ! 1) s')))
      else Some (push_native gt s))"

fun for_each :: "('a \<Rightarrow> 's \<Rightarrow> 's option) \<Rightarrow> 'a list \<Rightarrow> 's \<Rightarrow> 's option" where
  "for_each f [] s = Some s"
| "for_each f (x # xs) s = (case f x s of None \<Rightarrow> None | Some s' \<Rightarrow> for_each f xs s')"

definition GreedyMapper_map :: "QuantumCircuit \<Rightarrow> HardwareTopology \<Rightarrow> MappingResult option" where
  "GreedyMapper_map c hw = map_option result_of (for_each greedy_gate (gates c) (init_state c hw))"


section \<open>compiler/InteractionGraph.ts and optimizer/LookAheadMapper.ts\<close>

text \<open>The look-ahead score is computed in IEEE double arithmetic. The model takes that
  arithmetic as a parameter: zero, \<open>-Infinity\<close>, the weight \<open>1 / (1 + k)\<close>,
  \<open>dist * weight\<close>, subtraction and \<open>>\<close>.\<close>

record 'f floatops =
  f_zero :: 'f
  f_neg_infinity :: 'f
  f_weight :: "nat \<Rightarrow> 'f"
  f_times :: "num \<Rightarrow> 'f \<Rightarrow> 'f"
  f_minus :: "'f \<Rightarrow> 'f \<Rightarrow> 'f"
  f_greater :: "'f \<Rightarrow> 'f \<Rightarrow> bool"

text \<open>An upcoming interaction \<open>{qubits, distance, weight}\<close>.\<close>

definition getUpcomingInteractions ::
  "'f floatops \<Rightarrow> QuantumCircuit \<Rightarrow> nat \<Rightarrow> nat \<Rightarrow> (int list \<times> nat \<times> 'f) list" where
  "getUpcomingInteractions F c currentGateIdx windowSize =
     (let endIdx = min (currentGateIdx + windowSize) (length (gates c)) in
      map (\<lambda>i. (qubits (gates c ! i), i - currentGateIdx, f_weight F (i - currentGateIdx)))
          (filter (\<lambda>i. length (qubits (gates c ! i)) = 2) [currentGateIdx..<endIdx]))"

definition score_layout ::
  "'f floatops \<Rightarrow> (int list \<times> nat \<times> 'f) list \<Rightarrow> layout \<Rightarrow> HardwareTopology \<Rightarrow> 'f \<times> HardwareTopology" where
  "score_layout F upcoming testLayout hw =
     fold (\<lambda>(qs, k, weight) (score, hw).
             let (dst, hw') = distance hw (lget testLayout (qs ! 0)) (lget testLayout (qs ! 1))
             in (f_minus F score (f_times F dst weight), hw'))
          upcoming (f_zero F, hw)"

text \<open>One candidate edge \<open>(q1, q2)\<close>: the callback of the inner \<open>forEach\<close>. The scratch
  copy \<open>[...layout]\<close> starts without a \<open>-1\<close> property.\<close>

definition try_edge ::
  "'f floatops \<Rightarrow> (int list \<times> nat \<times> 'f) list \<Rightarrow> layout \<Rightarrow> nat \<Rightarrow> nat \<Rightarrow>
   (nat \<times> nat) option \<times> 'f \<times> HardwareTopology \<Rightarrow> (nat \<times> nat) option \<times> 'f \<times> HardwareTopology" where
  "try_edge F upcoming l q1 q2 acc =
     (case acc of (bestSwap, bestScore, hw) \<Rightarrow>
      if q1 \<ge> q2 then acc
      else
        let copy = \<lparr>elems = elems l, minus1 = None\<rparr>;
            log1 = indexOf (elems copy) (Some q1);
            log2 = indexOf (elems copy) (Some q2);
            testLayout = swap_entries copy log1 log2;
            (score, hw') = score_layout F upcoming testLayout hw
        in if f_greater F score bestScore then (Some (q1, q2), score, hw')
           else (bestSwap, bestScore, hw'))"

definition findBestSwap ::
  "'f floatops \<Rightarrow> QuantumCircuit \<Rightarrow> nat \<Rightarrow> layout \<Rightarrow> nat \<Rightarrow> HardwareTopology \<Rightarrow>
   (nat \<times> nat) option \<times> HardwareTopology" where
  "findBestSwap F c lookAhead l currentGateIdx hw =
     (let upcoming = getUpcomingInteractions F c currentGateIdx lookAhead;
          (bestSwap, bestScore, hw') =
             fold (\<lambda>q1 acc. fold (\<lambda>q2. try_edge F upcoming l q1 q2)
                                (case map_of (graph hw) q1 of None \<Rightarrow> [] | Some ns \<Rightarrow> ns) acc)
                  (map fst (graph hw)) (None, f_neg_infinity F, hw)
      in (bestSwap, hw'))"

partial_function (option) lookahead_loop ::
  "'f floatops \<Rightarrow> QuantumCircuit \<Rightarrow> nat \<Rightarrow> nat \<Rightarrow> int \<Rightarrow> int \<Rightarrow> mstate \<Rightarrow> mstate option" where
  "lookahead_loop F circ lookAhead gateIdx c t s =
     (if isConnected (st_hw s) (lget (st_layout s) c) (lget (st_layout s) t) then Some s
      else case findBestSwap F circ lookAhead (st_layout s) gateIdx (st_hw s) of
             (None, hw') \<Rightarrow> Some (s\<lparr>st_hw := hw'\<rparr>)
           | (Some (swapQ1, swapQ2), hw') \<Rightarrow>
               lookahead_loop F circ lookAhead gateIdx c t
                 (push_swap (Some swapQ1) (Some swapQ2) (s\<lparr>st_hw := hw'\<rparr>)))"

declare lookahead_loop.simps [code]

definition lookahead_gate ::
  "'f floatops \<Rightarrow> QuantumCircuit \<Rightarrow> nat \<Rightarrow> gate \<times> nat \<Rightarrow> mstate \<Rightarrow> mstate option" where
  "lookahead_gate F circ lookAhead gi s =
     (case gi of (gt, gateIdx) \<Rightarrow>
      if length (qubits gt) = 2 then
        (case lookahead_loop F circ lookAhead gateIdx (qubits gt ! 0) (qubits gt ! 1) s of
           None \<Rightarrow> None
         | Some s' \<Rightarrow> Some (push_native gt (add_penalty (qubits gt ! 0) (qubits gt ! 1) s')))
      else Some (push_native gt s))"

definition LookAheadMapper_map ::
  "'f floatops \<Rightarrow> QuantumCircuit \<Rightarrow> HardwareTopology \<Rightarrow> nat \<Rightarrow> MappingResult option" where
  "LookAheadMapper_map F c hw lookAhead =
     map_option result_of
       (for_each (lookahead_gate F c lookAhead) (zip (gates c) [0..<length (gates c)]) (init_state c hw))"

text \<open>Exact arithmetic on the rationals extended by the two infinities, used to run the
  look-ahead mapper on concrete inputs.\<close>

datatype xrat = NegInf | Rat rat | PosInf

fun xrat_times :: "num \<Rightarrow> xrat \<Rightarrow> xrat" where
  "xrat_times (Fin d) (Rat w) = Rat (of_int d * w)"
| "xrat_times Infinity (Rat w) = (if w > 0 then PosInf else if w < 0 then NegInf else Rat 0)"
| "xrat_times (Fin d) PosInf = (if d > 0 then PosInf else if d < 0 then NegInf else Rat 0)"
| "xrat_times (Fin d) NegInf = (if d > 0 then NegInf else if d < 0 then PosInf else Rat 0)"
| "xrat_times Infinity PosInf = PosInf"
| "xrat_times Infinity NegInf = NegInf"

fun xrat_minus :: "xrat \<Rightarrow> xrat \<Rightarrow> xrat" where
  "xrat_minus (Rat a) (Rat b) = Rat (a - b)"
| "xrat_minus (Rat a) PosInf = NegInf"
| "xrat_minus (Rat a) NegInf = PosInf"
| "xrat_minus NegInf _ = NegInf"
| "xrat_minus PosInf _ = PosInf"

fun xrat_greater :: "xrat \<Rightarrow> xrat \<Rightarrow> bool" where
  "xrat_greater (Rat a) (Rat b) = (a > b)"
| "xrat_greater PosInf b = (b \<noteq> PosInf)"
| "xrat_greater (Rat a) b = (b = NegInf)"
| "xrat_greater NegInf b = False"

definition exact_ops :: "xrat floatops" where
  "exact_ops = \<lparr>f_zero = Rat 0, f_neg_infinity = NegInf, f_weight = (\<lambda>k. Rat (1 / (1 + of_nat k))),
     f_times = xrat_times, f_minus = xrat_minus, f_greater = xrat_greater\<rparr>"


section \<open>optimizer/GeneticSwapOptimizer.ts: the replay\<close>

text \<open>A gene is a hardware edge \<open>[a, b]\<close>, or \<open>undefined\<close> when it was drawn from an empty
  edge list; a chromosome is an array of genes, or \<open>null\<close> (the initial \<open>bestEver\<close>).
  Destructuring an \<open>undefined\<close> gene and reading \<open>length\<close> of \<open>null\<close> throw a TypeError.\<close>

type_synonym gene = "(nat \<times> nat) option"
type_synonym chromosome = "gene list option"

record gstate = mstate +
  st_swapIndex :: nat

definition init_gstate :: "QuantumCircuit \<Rightarrow> HardwareTopology \<Rightarrow> gstate" where
  "init_gstate c hw = \<lparr>st_steps = [], st_layout = identity_layout (nQubits c), st_insertedSwaps = 0,
     st_depth = 0, st_distancePenalty = Fin 0, st_hw = hw, st_swapIndex = 0\<rparr>"

function genetic_loop :: "chromosome \<Rightarrow> int \<Rightarrow> int \<Rightarrow> gstate \<Rightarrow> error + gstate" where
  "genetic_loop chrom c t s =
     (if isConnected (st_hw s) (lget (st_layout s) c) (lget (st_layout s) t) then Inr s
      else case chrom of
        None \<Rightarrow> Inl TypeError
      | Some genes \<Rightarrow>
          if \<not> st_swapIndex s < length genes then Inr s
          else case genes ! st_swapIndex s of
            None \<Rightarrow> Inl TypeError
          | Some (swapQ1, swapQ2) \<Rightarrow>
              genetic_loop chrom c t
                ((if indexOf (elems (st_layout s)) (Some swapQ1) \<noteq> - 1
                     \<and> indexOf (elems (st_layout s)) (Some swapQ2) \<noteq> - 1
                  then push_swap (Some swapQ1) (Some swapQ2) s else s)
                 \<lparr>st_swapIndex := st_swapIndex s + 1\<rparr>))"
  by pat_completeness auto
termination
  by (relation "measure (\<lambda>(chrom, c, t, s). length (the chrom) - st_swapIndex s)")
     (auto simp: push_swap_def Let_def)

definition genetic_gate :: "chromosome \<Rightarrow> gate \<Rightarrow> gstate \<Rightarrow> error + gstate" where
  "genetic_gate chrom gt s =
     (if length (qubits gt) = 2 then
        (case genetic_loop chrom (qubits gt ! 0) (qubits gt ! 1) s of
           Inl e \<Rightarrow> Inl e
         | Inr s' \<Rightarrow> Inr (push_native gt (add_penalty (qubits gt ! 0) (qubits gt ! 1) s')))
      else Inr (push_native gt s))"

fun for_each_e :: "('a \<Rightarrow> 's \<Rightarrow> error + 's) \<Rightarrow> 'a list \<Rightarrow> 's \<Rightarrow> error + 's" where
  "for_each_e f [] s = Inr s"
| "for_each_e f (x # xs) s = (case f x s of Inl e \<Rightarrow> Inl e | Inr s' \<Rightarrow> for_each_e f xs s')"

definition replay :: "chromosome \<Rightarrow> QuantumCircuit \<Rightarrow> HardwareTopology \<Rightarrow> error + gstate" where
  "replay chrom c hw = for_each_e (genetic_gate chrom) (gates c) (init_gstate c hw)"

definition applyChromosome :: "chromosome \<Rightarrow> QuantumCircuit \<Rightarrow> HardwareTopology \<Rightarrow> error + MappingResult" where
  "applyChromosome chrom c hw = map_sum id result_of (replay chrom c hw)"

section \<open>Constructors that read their options with \<open>||\<close>\<close>

record CostModel_config =
  c_alpha :: "rat option"
  c_beta :: "rat option"
  c_gamma :: "rat option"

record CostModel =
  alpha :: rat
  beta :: rat
  gamma :: rat

definition new_CostModel :: "CostModel_config \<Rightarrow> CostModel" where
  "new_CostModel cfg = \<lparr>alpha = js_or (c_alpha cfg) 10, beta = js_or (c_beta cfg) 1,
     gamma = js_or (c_gamma cfg) 5\<rparr>"

text \<open>The search of the genetic optimizer computes with IEEE doubles: the ratio and rate
  options, the results of \<open>Math.random()\<close>, and the products and comparisons of these. Their
  operations are parameters of the model: \<open>d_floor_times x k\<close> is \<open>Math.floor(x * k)\<close> for a
  double \<open>x\<close> and an integer \<open>k\<close> (the same number as \<open>Math.floor(k * x)\<close>, and an integer as
  long as the product is finite), \<open>d_less\<close> is \<open><\<close>, \<open>d_times\<close> is \<open>*\<close>, \<open>d_max\<close> is \<open>Math.max\<close>,
  \<open>d_falsy\<close> holds of the doubles that \<open>||\<close> replaces (\<open>0\<close> and \<open>NaN\<close>), and \<open>d_literal q\<close> is the
  double that the decimal literal \<open>q\<close> denotes. The counts (population size, generations,
  tournament size, chromosome length, plateau threshold) are integers.\<close>

record 'd doubleops =
  d_floor_times :: "'d \<Rightarrow> int \<Rightarrow> int"
  d_less :: "'d \<Rightarrow> 'd \<Rightarrow> bool"
  d_times :: "'d \<Rightarrow> 'd \<Rightarrow> 'd"
  d_max :: "'d \<Rightarrow> 'd \<Rightarrow> 'd"
  d_falsy :: "'d \<Rightarrow> bool"
  d_literal :: "rat \<Rightarrow> 'd"

text \<open>\<open>x || d\<close> on an optional double.\<close>

definition d_or :: "'d doubleops \<Rightarrow> 'd option \<Rightarrow> 'd \<Rightarrow> 'd" where
  "d_or D x d = (case x of None \<Rightarrow> d | Some v \<Rightarrow> if d_falsy D v then d else v)"

text \<open>The same operations computed exactly on the rationals, used to run the search on
  concrete inputs.\<close>

definition exact_double :: "rat doubleops" where
  "exact_double = \<lparr>d_floor_times = (\<lambda>x k. \<lfloor>x * of_int k\<rfloor>), d_less = (\<lambda>x y. x < y),
     d_times = (\<lambda>x y. x * y), d_max = max, d_falsy = (\<lambda>x. x = 0), d_literal = (\<lambda>q. q)\<rparr>"

record 'd genetic_options =
  o_populationSize :: "int option"
  o_generations :: "int option"
  o_tournamentSize :: "int option"
  o_eliteRatio :: "'d option"
  o_initialMutationRate :: "'d option"
  o_minMutationRate :: "'d option"
  o_maxSwapsPerChromosome :: "int option"
  o_plateauThreshold :: "int option"

record 'd genetic_config =
  populationSize :: int
  generations :: int
  tournamentSize :: int
  eliteRatio :: 'd
  initialMutationRate :: 'd
  minMutationRate :: 'd
  maxSwapsPerChromosome :: int
  plateauThreshold :: int

definition new_GeneticSwapOptimizer_config ::
  "'d doubleops \<Rightarrow> 'd genetic_options \<Rightarrow> 'd genetic_config" where
  "new_GeneticSwapOptimizer_config D cfg =
     \<lparr>populationSize = js_or (o_populationSize cfg) 30,
      generations = js_or (o_generations cfg) 50,
      tournamentSize = js_or (o_tournamentSize cfg) 3,
      eliteRatio = d_or D (o_eliteRatio cfg) (d_literal D (2 / 10)),
      initialMutationRate = d_or D (o_initialMutationRate cfg) (d_literal D (3 / 10)),
      minMutationRate = d_or D (o_minMutationRate cfg) (d_literal D (5 / 100)),
      maxSwapsPerChromosome = js_or (o_maxSwapsPerChromosome cfg) 8,
      plateauThreshold = js_or (o_plateauThreshold cfg) 10\<rparr>"


section \<open>optimizer/GeneticSwapOptimizer.ts: the search\<close>

text \<open>\<open>Math.random()\<close> is an input of the model: its \<open>i\<close>-th call returns the double \<open>rnd i\<close>,
  and every function that draws returns the position of the next call.
  \<open>random_index D rnd i k\<close> is \<open>Math.floor(Math.random() * k)\<close>.\<close>

type_synonym 'd rng = "nat \<Rightarrow> 'd"

definition random_index :: "'d doubleops \<Rightarrow> 'd rng \<Rightarrow> nat \<Rightarrow> int \<Rightarrow> int" where
  "random_index D rnd i k = d_floor_times D (rnd i) k"

text \<open>\<open>xs[i]\<close>: \<open>undefined\<close> outside the array.\<close>

definition js_nth :: "'a list \<Rightarrow> int \<Rightarrow> 'a option" where
  "js_nth xs i = (if 0 \<le> i \<and> i < int (length xs) then Some (xs ! nat i) else None)"

text \<open>\<open>xs.slice(0, k)\<close>: a negative \<open>k\<close> counts from the end.\<close>

definition js_slice0 :: "'a list \<Rightarrow> int \<Rightarrow> 'a list" where
  "js_slice0 xs k = (if 0 \<le> k then take (nat k) xs else take (length xs - nat (- k)) xs)"

text \<open>\<open>xs.slice(k)\<close>, likewise.\<close>

definition js_slice_from :: "'a list \<Rightarrow> int \<Rightarrow> 'a list" where
  "js_slice_from xs k = (if 0 \<le> k then drop (nat k) xs else drop (length xs - nat (- k)) xs)"

definition getValidSwaps :: "HardwareTopology \<Rightarrow> (nat \<times> nat) list" where
  "getValidSwaps hw =
     concat (map (\<lambda>q1. map (\<lambda>q2. (q1, q2))
                          (filter (\<lambda>q2. q1 < q2)
                             (case map_of (graph hw) q1 of None \<Rightarrow> [] | Some ns \<Rightarrow> ns)))
                 (map fst (graph hw)))"

text \<open>\<open>validSwaps[Math.floor(Math.random() * validSwaps.length)]\<close>\<close>

definition random_gene :: "'d doubleops \<Rightarrow> 'd rng \<Rightarrow> (nat \<times> nat) list \<Rightarrow> nat \<Rightarrow> gene" where
  "random_gene D rnd validSwaps i = js_nth validSwaps (random_index D rnd i (int (length validSwaps)))"

fun random_genes ::
  "'d doubleops \<Rightarrow> 'd rng \<Rightarrow> (nat \<times> nat) list \<Rightarrow> nat \<Rightarrow> nat \<Rightarrow> gene list \<times> nat" where
  "random_genes D rnd validSwaps 0 i = ([], i)"
| "random_genes D rnd validSwaps (Suc n) i =
     (let (rest, i') = random_genes D rnd validSwaps n (Suc i)
      in (random_gene D rnd validSwaps i # rest, i'))"

fun initial_population ::
  "'d doubleops \<Rightarrow> 'd rng \<Rightarrow> 'd genetic_config \<Rightarrow> (nat \<times> nat) list \<Rightarrow> nat \<Rightarrow> nat \<Rightarrow>
   gene list list \<times> nat" where
  "initial_population D rnd cfg validSwaps 0 i = ([], i)"
| "initial_population D rnd cfg validSwaps (Suc n) i =
     (let len = random_index D rnd i (maxSwapsPerChromosome cfg) + 1;
          (chromosome, i1) = random_genes D rnd validSwaps (nat len) (Suc i);
          (rest, i2) = initial_population D rnd cfg validSwaps n i1
      in (chromosome # rest, i2))"

definition initializePopulation ::
  "'d doubleops \<Rightarrow> 'd rng \<Rightarrow> 'd genetic_config \<Rightarrow> HardwareTopology \<Rightarrow> nat \<Rightarrow>
   gene list list \<times> nat" where
  "initializePopulation D rnd cfg hw i =
     initial_population D rnd cfg (getValidSwaps hw) (nat (populationSize cfg)) i"

text \<open>The key \<open>"a-b,a-b,..."\<close> determines the edge sequence and the edge sequence the key;
  the callback destructures every gene, which throws on \<open>undefined\<close>.\<close>

definition chromosomeKey :: "gene list \<Rightarrow> error + (nat \<times> nat) list" where
  "chromosomeKey genes = (if None \<in> set genes then Inl TypeError else Inr (map the genes))"

text \<open>A fitness is \<open>-(10 * insertedSwaps + depth + 3 * distancePenalty)\<close>: an integer, or
  \<open>-Infinity\<close> when the penalty is infinite.\<close>

datatype fitness = NegInfinity | Fit int

fun fitness_greater :: "fitness \<Rightarrow> fitness \<Rightarrow> bool" where
  "fitness_greater (Fit a) (Fit b) = (a > b)"
| "fitness_greater (Fit a) NegInfinity = True"
| "fitness_greater NegInfinity _ = False"

definition fitness_of :: "MappingResult \<Rightarrow> fitness" where
  "fitness_of r = (case distancePenalty r of
       Infinity \<Rightarrow> NegInfinity
     | Fin p \<Rightarrow> Fit (- (int (insertedSwaps r) * 10 + int (depth r) + p * 3)))"

definition evaluateFitness ::
  "gene list \<Rightarrow> QuantumCircuit \<Rightarrow> HardwareTopology \<Rightarrow> error + fitness \<times> HardwareTopology" where
  "evaluateFitness genes c hw =
     (case replay (Some genes) c hw of
        Inl e \<Rightarrow> Inl e
      | Inr s \<Rightarrow> Inr (fitness_of (result_of s), st_hw s))"

type_synonym fitnessCache = "(nat \<times> nat) list \<Rightarrow> fitness option"

text \<open>The callback of \<open>population.map\<close>, run over the population from left to right.\<close>

fun evaluate_population ::
  "QuantumCircuit \<Rightarrow> gene list list \<Rightarrow> fitnessCache \<Rightarrow> HardwareTopology \<Rightarrow>
   error + (gene list \<times> fitness) list \<times> fitnessCache \<times> HardwareTopology" where
  "evaluate_population c [] cache hw = Inr ([], cache, hw)"
| "evaluate_population c (chromosome # rest) cache hw =
     (case chromosomeKey chromosome of
        Inl e \<Rightarrow> Inl e
      | Inr cacheKey \<Rightarrow>
          (case cache cacheKey of
             Some f \<Rightarrow>
               (case evaluate_population c rest cache hw of
                  Inl e \<Rightarrow> Inl e
                | Inr (es, cache', hw') \<Rightarrow> Inr ((chromosome, f) # es, cache', hw'))
           | None \<Rightarrow>
               (case evaluateFitness chromosome c hw of
                  Inl e \<Rightarrow> Inl e
                | Inr (f, hw1) \<Rightarrow>
                    (case evaluate_population c rest (cache(cacheKey \<mapsto> f)) hw1 of
                       Inl e \<Rightarrow> Inl e
                     | Inr (es, cache', hw') \<Rightarrow> Inr ((chromosome, f) # es, cache', hw')))))"

text \<open>\<open>sort((a, b) => b.fitness - a.fitness)\<close>: the stable sort by descending fitness (two
  fitnesses \<open>-Infinity\<close> compare as equal, their difference being \<open>NaN\<close>).\<close>

fun insert_desc :: "'a \<times> fitness \<Rightarrow> ('a \<times> fitness) list \<Rightarrow> ('a \<times> fitness) list" where
  "insert_desc x [] = [x]"
| "insert_desc x (y # ys) =
     (if fitness_greater (snd y) (snd x) then y # insert_desc x ys else x # y # ys)"

definition sort_desc :: "('a \<times> fitness) list \<Rightarrow> ('a \<times> fitness) list" where
  "sort_desc xs = foldr insert_desc xs []"

fun tournament_draw ::
  "'d doubleops \<Rightarrow> 'd rng \<Rightarrow> (gene list \<times> fitness) list \<Rightarrow> nat \<Rightarrow> nat \<Rightarrow>
   (gene list \<times> fitness) option list \<times> nat" where
  "tournament_draw D rnd evaluated 0 i = ([], i)"
| "tournament_draw D rnd evaluated (Suc n) i =
     (let (rest, i') = tournament_draw D rnd evaluated n (Suc i)
      in (js_nth evaluated (random_index D rnd i (int (length evaluated))) # rest, i'))"

text \<open>\<open>sort\<close> moves \<open>undefined\<close> entries to the end without comparing them; reading
  \<open>chromosome\<close> of the first entry throws when there is no defined entry.\<close>

definition tournamentSelect ::
  "'d doubleops \<Rightarrow> 'd rng \<Rightarrow> 'd genetic_config \<Rightarrow> (gene list \<times> fitness) list \<Rightarrow> nat \<Rightarrow>
   error + gene list \<times> nat" where
  "tournamentSelect D rnd cfg evaluated i =
     (let (tournament, i') = tournament_draw D rnd evaluated (nat (tournamentSize cfg)) i
      in case sort_desc (map the (filter (\<lambda>e. e \<noteq> None) tournament)) of
           [] \<Rightarrow> Inl TypeError
         | e # _ \<Rightarrow> Inr (fst e, i'))"

definition crossover ::
  "'d doubleops \<Rightarrow> 'd rng \<Rightarrow> gene list \<Rightarrow> gene list \<Rightarrow> nat \<Rightarrow> gene list \<times> nat" where
  "crossover D rnd p1 p2 i =
     (if p1 = [] \<or> p2 = [] then (if p1 \<noteq> [] then p1 else p2, i)
      else let point = random_index D rnd i (int (min (length p1) (length p2)))
           in (js_slice0 p1 point @ js_slice_from p2 point, Suc i))"

text \<open>\<open>mutated[idx] = gene\<close>: an index outside the array would add a property or extend the
  array; the index drawn is \<open>Math.floor(Math.random() * mutated.length)\<close> and the branch is
  taken for a non-empty array only. \<open>splice(idx, 1)\<close> removes the element at \<open>idx\<close>.\<close>

definition mutate ::
  "'d doubleops \<Rightarrow> 'd rng \<Rightarrow> 'd genetic_config \<Rightarrow> (nat \<times> nat) list \<Rightarrow> gene list \<Rightarrow> nat \<Rightarrow>
   gene list \<times> nat" where
  "mutate D rnd cfg validSwaps chromosome i =
     (let mutationType = rnd i in
      if d_less D mutationType (d_literal D (4 / 10)) \<and> chromosome \<noteq> [] then
        (let idx = random_index D rnd (i + 1) (int (length chromosome))
         in (chromosome[nat idx := random_gene D rnd validSwaps (i + 2)], i + 3))
      else if d_less D mutationType (d_literal D (7 / 10))
              \<and> int (length chromosome) < maxSwapsPerChromosome cfg then
        (chromosome @ [random_gene D rnd validSwaps (i + 1)], i + 2)
      else if length chromosome > 1 then
        (let idx = nat (random_index D rnd (i + 1) (int (length chromosome)))
         in (take idx chromosome @ drop (Suc idx) chromosome, i + 2))
      else (chromosome, i + 1))"

text \<open>\<open>while (newPopulation.length < this.config.populationSize) { ... }\<close>\<close>

function fill_population ::
  "'d doubleops \<Rightarrow> 'd rng \<Rightarrow> 'd genetic_config \<Rightarrow> (nat \<times> nat) list \<Rightarrow>
   (gene list \<times> fitness) list \<Rightarrow> 'd \<Rightarrow> gene list list \<Rightarrow> nat \<Rightarrow> error + gene list list \<times> nat" where
  "fill_population D rnd cfg validSwaps evaluated mutationRate newPopulation i =
     (if \<not> int (length newPopulation) < populationSize cfg then Inr (newPopulation, i)
      else case tournamentSelect D rnd cfg evaluated i of
        Inl e \<Rightarrow> Inl e
      | Inr (parent1, i1) \<Rightarrow>
          (case tournamentSelect D rnd cfg evaluated i1 of
             Inl e \<Rightarrow> Inl e
           | Inr (parent2, i2) \<Rightarrow>
               (case crossover D rnd parent1 parent2 i2 of
                  (child, i3) \<Rightarrow>
                    (case (if d_less D (rnd i3) mutationRate
                           then mutate D rnd cfg validSwaps child (Suc i3)
                           else (child, Suc i3)) of
                       (child', i4) \<Rightarrow>
                         fill_population D rnd cfg validSwaps evaluated mutationRate
                           (newPopulation @ [child']) i4))))"
  by pat_completeness auto
termination
  by (relation "measure (\<lambda>(D, rnd, cfg, validSwaps, evaluated, mutationRate, newPopulation, i).
                  nat (populationSize cfg - int (length newPopulation)))") auto

text \<open>The variables of \<open>map()\<close>: the state of the generation loop, with its counter \<open>gen\<close>,
  the fitness memo, the topology object and the number of \<open>Math.random()\<close> calls made.\<close>

record 'd search =
  population :: "gene list list"
  bestEver :: chromosome
  bestEverFitness :: fitness
  plateauCounter :: int
  mutationRate :: 'd
  gen :: int
  cache :: fitnessCache
  hardware :: HardwareTopology
  calls :: nat

text \<open>\<open>for (let gen = 0; gen < this.config.generations; gen++) { ... }\<close>. The result is the
  state in which the loop is left: at the \<open>break\<close>, where \<open>gen\<close> is the index of the current
  generation, or when \<open>gen\<close> has reached the cap.\<close>

function generations_loop ::
  "'d doubleops \<Rightarrow> 'd rng \<Rightarrow> 'd genetic_config \<Rightarrow> QuantumCircuit \<Rightarrow> 'd search \<Rightarrow> error + 'd search" where
  "generations_loop D rnd cfg c st =
     (if \<not> gen st < generations cfg then Inr st
      else case evaluate_population c (population st) (cache st) (hardware st) of
        Inl e \<Rightarrow> Inl e
      | Inr (unsorted, cache', hw') \<Rightarrow>
          (case sort_desc unsorted of
             [] \<Rightarrow> Inl TypeError
           | (best, bestFitness) # others \<Rightarrow>
               (let improved = fitness_greater bestFitness (bestEverFitness st);
                    st1 = st\<lparr>bestEver := (if improved then Some best else bestEver st),
                             bestEverFitness := (if improved then bestFitness else bestEverFitness st),
                             plateauCounter := (if improved then 0 else plateauCounter st + 1),
                             cache := cache', hardware := hw'\<rparr>
                in if plateauCounter st1 \<ge> plateauThreshold cfg then Inr st1
                   else
                     (let eliteCount = d_floor_times D (eliteRatio cfg) (populationSize cfg);
                          elite = map fst (js_slice0 ((best, bestFitness) # others) eliteCount)
                      in case fill_population D rnd cfg (getValidSwaps hw') ((best, bestFitness) # others)
                                (mutationRate st1) elite (calls st1) of
                           Inl e \<Rightarrow> Inl e
                         | Inr (newPopulation, i') \<Rightarrow>
                             generations_loop D rnd cfg c
                               (st1\<lparr>population := newPopulation,
                                     mutationRate := d_max D (minMutationRate cfg)
                                        (d_times D (mutationRate st1) (d_literal D (95 / 100))),
                                     gen := gen st1 + 1, calls := i'\<rparr>)))))"
  by pat_completeness auto
termination
  by (relation "measure (\<lambda>(D, rnd, cfg, c, st). nat (generations cfg - gen st))") auto

text \<open>\<open>map()\<close> up to the end of the generation loop.\<close>

definition genetic_search ::
  "'d doubleops \<Rightarrow> 'd rng \<Rightarrow> 'd genetic_options \<Rightarrow> QuantumCircuit \<Rightarrow> HardwareTopology \<Rightarrow>
   error + 'd search" where
  "genetic_search D rnd opts c hw =
     (let cfg = new_GeneticSwapOptimizer_config D opts;
          (pop, i) = initializePopulation D rnd cfg hw 0
      in generations_loop D rnd cfg c
           \<lparr>population = pop, bestEver = None, bestEverFitness = NegInfinity,
            plateauCounter = 0, mutationRate = initialMutationRate cfg, gen = 0,
            cache = (\<lambda>_. None), hardware = hw, calls = i\<rparr>)"

definition GeneticSwapOptimizer_map ::
  "'d doubleops \<Rightarrow> 'd rng \<Rightarrow> 'd genetic_options \<Rightarrow> QuantumCircuit \<Rightarrow> HardwareTopology \<Rightarrow>
   error + MappingResult" where
  "GeneticSwapOptimizer_map D rnd opts c hw =
     (case genetic_search D rnd opts c hw of
        Inl e \<Rightarrow> Inl e
      | Inr st \<Rightarrow> applyChromosome (bestEver st) c (hardware st))"

section \<open>Properties of mapping results\<close>

text \<open>The counters of a result agree with its step list: \<open>insertedSwaps\<close> counts the swap
  steps, \<open>depth\<close> is the number of steps, the steps carry the depth indices
  \<open>0, 1, 2, ...\<close> in order, and \<open>inserted\<close> is set on the swap steps and on no other.\<close>

definition counters_agree :: "MappingResult \<Rightarrow> bool" where
  "counters_agree r =
     (insertedSwaps r = length (filter is_swap (steps r))
      \<and> depth r = length (steps r)
      \<and> map step_depth (steps r) = [0..<length (steps r)]
      \<and> list_all (\<lambda>x. step_inserted x = is_swap x) (steps r))"

section \<open>Concrete inputs\<close>

text \<open>Scenario A of the specification: the three-qubit chain \<open>0 - 1 - 2\<close> and the circuit
  with the single two-qubit gate on the logical qubits 0 and 2.\<close>

definition chain3 :: HardwareTopology where
  "chain3 = new_HardwareTopology ''lnn'' \<lparr>p_qubits = Some 3, p_rows = None, p_cols = None\<rparr>"

definition cx02 :: QuantumCircuit where
  "cx02 = \<lparr>nQubits = 3, gates = [\<lparr>gtype = ''cx'', qubits = [0, 2]\<rparr>]\<rparr>"

text \<open>What all three strategies return in Scenario A: one swap on the edge \<open>0 - 1\<close>, then
  the gate on the physical qubits 1 and 2.\<close>

definition scenario_A_result :: MappingResult where
  "scenario_A_result =
     \<lparr>steps =
        [Swap [Some 0, Some 1] [0, 1] [Some 1, Some 0, Some 2] True 0,
         Native ''cx'' [Some 1, Some 2] [0, 2] [Some 1, Some 0, Some 2] False 1],
      insertedSwaps = 1, depth = 2, distancePenalty = Fin 0,
      finalLayout = [Some 1, Some 0, Some 2]\<rparr>"

section \<open>Walks in the hardware graph\<close>

text \<open>\<open>is_walk g a p b\<close>: following the adjacency lists from \<open>a\<close> through the nodes
  \<open>p\<close> one arrives at \<open>b\<close>; the walk has \<open>length p\<close> hops.\<close>

fun is_walk :: "graph \<Rightarrow> jsval \<Rightarrow> jsval list \<Rightarrow> jsval \<Rightarrow> bool" where
  "is_walk g a [] b = (a = b)"
| "is_walk g a (x # xs) b = (x \<in> set (adj g a) \<and> is_walk g x xs b)"

definition reachable :: "graph \<Rightarrow> jsval \<Rightarrow> jsval \<Rightarrow> bool" where
  "reachable g a b = (\<exists>p. is_walk g a p b)"

definition symmetric_graph :: "graph \<Rightarrow> bool" where
  "symmetric_graph g = (\<forall>a b. b \<in> set (adj g a) \<longrightarrow> a \<in> set (adj g b))"

definition loop_free :: "graph \<Rightarrow> bool" where
  "loop_free g = (\<forall>a. a \<notin> set (adj g a))"

text \<open>The breadth-first search that \<open>distance\<close> runs when the memo has no entry.\<close>

definition hops :: "graph \<Rightarrow> jsval \<Rightarrow> jsval \<Rightarrow> num" where
  "hops g q1 q2 = bfs_dist g q2 [] [(q1, 0)]"

text \<open>The memo is sound when every entry under a numeric key is what the search from the
  smaller to the larger qubit returns. (The entry under \<open>"NaN-NaN"\<close> is unconstrained.)\<close>

definition cache_sound :: "HardwareTopology \<Rightarrow> bool" where
  "cache_sound hw =
     (\<forall>a b d. distanceCache hw (Some (a, b)) = Some d \<longrightarrow> d = hops (graph hw) (Some a) (Some b))"

text \<open>A topology as the program can hold it: the graph was built by the constructor from
  some shape tag and parameters, and the memo was filled by calls of \<open>distance\<close>.\<close>

definition built_topology :: "HardwareTopology \<Rightarrow> bool" where
  "built_topology hw = ((\<exists>ty ps. graph hw = buildGraph ty ps) \<and> cache_sound hw)"

text \<open>The queue holds its entries in the order of their hop counts, which differ by at most
  one from the first to the last.\<close>

definition queue_ok :: "(jsval \<times> nat) list \<Rightarrow> bool" where
  "queue_ok Q = (sorted (map snd Q) \<and> (\<forall>e \<in> set Q. snd e \<le> Suc (snd (hd Q))))"

section \<open>What a processed two-qubit gate leaves behind\<close>

text \<open>After the gate \<open>gt\<close> with operands \<open>c\<close> and \<open>t\<close> took the state \<open>s\<close> to \<open>s'\<close>, with
  \<open>p1 = layout[c]\<close> and \<open>p2 = layout[t]\<close> read in \<open>s'\<close>: the last step is the gate's own
  step on \<open>[p1, p2]\<close> with the layout snapshot of \<open>s'\<close>; the penalty grew by
  \<open>distance(p1, p2) - 1\<close>, as the topology object answered at that moment; and when \<open>p1\<close> and
  \<open>p2\<close> are adjacent their hop count is 1 and the penalty did not change.\<close>

definition gate_emitted :: "gate \<Rightarrow> 'a mstate_scheme \<Rightarrow> 'a mstate_scheme \<Rightarrow> bool" where
  "gate_emitted gt s s' =
     (let c = qubits gt ! 0; t = qubits gt ! 1;
          p1 = lget (st_layout s') c; p2 = lget (st_layout s') t
      in st_steps s' \<noteq> []
         \<and> last (st_steps s') = Native (gtype gt) [p1, p2] [c, t] (elems (st_layout s')) False (st_depth s' - 1)
         \<and> (\<exists>hw1. built_topology hw1 \<and> graph hw1 = graph (st_hw s)
                \<and> st_distancePenalty s'
                    = num_add (st_distancePenalty s) (num_add (fst (distance hw1 p1 p2)) (Fin (- 1))))
         \<and> (isConnected (st_hw s') p1 p2 \<longrightarrow>
               hops (graph (st_hw s')) p1 p2 = Fin 1 \<and> st_distancePenalty s' = st_distancePenalty s)
         \<and> built_topology (st_hw s'))"

text \<open>The memo stays that of a built topology through every call the look-ahead search makes.\<close>

definition same_built :: "graph \<Rightarrow> HardwareTopology \<Rightarrow> bool" where
  "same_built g hw = (built_topology hw \<and> graph hw = g)"

text \<open>How a swap loop can have stopped for the gate \<open>gt\<close>: its two physical qubits are
  adjacent, or the strategy's own exhaustion condition holds: the shortest path has fewer
  than two vertices; the search finds no candidate edge; the cursor is past the end of the
  chromosome.\<close>

definition resolved :: "gate \<Rightarrow> 'a mstate_scheme \<Rightarrow> bool" where
  "resolved gt s =
     isConnected (st_hw s) (lget (st_layout s) (qubits gt ! 0)) (lget (st_layout s) (qubits gt ! 1))"

definition greedy_exhausted :: "gate \<Rightarrow> mstate \<Rightarrow> bool" where
  "greedy_exhausted gt s =
     (length (getShortestPath (st_hw s) (lget (st_layout s) (qubits gt ! 0))
                (lget (st_layout s) (qubits gt ! 1))) < 2)"

definition lookahead_exhausted :: "'f floatops \<Rightarrow> QuantumCircuit \<Rightarrow> nat \<Rightarrow> nat \<Rightarrow> mstate \<Rightarrow> bool" where
  "lookahead_exhausted F circ lookAhead gateIdx s =
     (\<exists>h. same_built (graph (st_hw s)) h
          \<and> fst (findBestSwap F circ lookAhead (st_layout s) gateIdx h) = None)"

definition genetic_exhausted :: "chromosome \<Rightarrow> gstate \<Rightarrow> bool" where
  "genetic_exhausted chrom s = (\<exists>genes. chrom = Some genes \<and> length genes \<le> st_swapIndex s)"

text \<open>The one gate of Scenario A.\<close>

definition cx02_gate :: gate where
  "cx02_gate = \<lparr>gtype = ''cx'', qubits = [0, 2]\<rparr>"

text \<open>The two-qubit chain \<open>0 - 1\<close>, and the circuit whose one gate names the logical
  qubit 0 twice.\<close>

definition chain2 :: HardwareTopology where
  "chain2 = new_HardwareTopology ''lnn'' \<lparr>p_qubits = Some 2, p_rows = None, p_cols = None\<rparr>"

definition cx00 :: QuantumCircuit where
  "cx00 = \<lparr>nQubits = 2, gates = [\<lparr>gtype = ''cx'', qubits = [0, 0]\<rparr>]\<rparr>"

text \<open>A second gate for the chain of three: after the swap on \<open>0 - 1\<close> its operands sit on the
  physical qubits 0 and 2.\<close>

definition cx12_gate :: gate where
  "cx12_gate = \<lparr>gtype = ''cx'', qubits = [1, 2]\<rparr>"

definition two_cx :: QuantumCircuit where
  "two_cx = \<lparr>nQubits = 3, gates = [cx02_gate, cx12_gate]\<rparr>"

text \<open>Every element of the layout array is a physical qubit, none is \<open>undefined\<close>.\<close>

definition numbers_only :: "layout \<Rightarrow> bool" where
  "numbers_only l = (None \<notin> set (elems l))"

text \<open>The 3 x 3 grid, which has nine physical qubits, and a circuit on five logical qubits
  with one two-qubit gate on the logical qubits 3 and 2. (The user interface of the
  repository pairs five-qubit circuits with this grid.)\<close>

definition grid3x3 :: HardwareTopology where
  "grid3x3 = new_HardwareTopology ''grid2d'' \<lparr>p_qubits = Some 5, p_rows = Some 3, p_cols = Some 3\<rparr>"

definition cx32 :: QuantumCircuit where
  "cx32 = \<lparr>nQubits = 5, gates = [\<lparr>gtype = ''cx'', qubits = [3, 2]\<rparr>]\<rparr>"

text \<open>The states the look-ahead loop runs through on \<open>cx00\<close> and the two-qubit chain.\<close>

definition spinning :: "mstate \<Rightarrow> bool" where
  "spinning s = (same_built (lnn_graph 2) (st_hw s)
     \<and> (elems (st_layout s) = [Some 0, Some 1] \<or> elems (st_layout s) = [Some 1, Some 0]))"

section \<open>Valid inputs of the genetic optimizer\<close>

text \<open>A circuit is valid when it has at least one qubit and every gate has one or two
  operands in \<open>[0, nQubits)\<close>.\<close>

definition valid_circuit :: "QuantumCircuit \<Rightarrow> bool" where
  "valid_circuit c =
     (1 \<le> nQubits c
      \<and> (\<forall>gt \<in> set (gates c). (length (qubits gt) = 1 \<or> length (qubits gt) = 2)
                                \<and> (\<forall>q \<in> set (qubits gt). 0 \<le> q \<and> q < nQubits c)))"

text \<open>A valid circuit and a topology fit together when the topology was built from one of
  the three shape tags, its memo was filled by \<open>distance\<close>, it has at least as many qubits
  as the circuit, and it has an edge to swap along.\<close>

definition valid_input :: "QuantumCircuit \<Rightarrow> HardwareTopology \<Rightarrow> bool" where
  "valid_input c hw =
     (valid_circuit c
      \<and> (\<exists>ty ps. (ty = ''lnn'' \<or> ty = ''grid2d'' \<or> ty = ''star'') \<and> graph hw = buildGraph ty ps)
      \<and> cache_sound hw
      \<and> nat (nQubits c) \<le> length (graph hw)
      \<and> getValidSwaps hw \<noteq> [])"

text \<open>Every two qubits of the device are joined by a walk, and the qubits are numbered
  from 0.\<close>

definition connected_device :: "graph \<Rightarrow> bool" where
  "connected_device g =
     (map fst g = [0..<length g]
      \<and> (\<forall>a < length g. \<forall>b < length g. reachable g (Some a) (Some b)))"

text \<open>No gene of the chromosome is \<open>undefined\<close>.\<close>

definition defined_genes :: "gene list \<Rightarrow> bool" where
  "defined_genes genes = (None \<notin> set genes)"

text \<open>All options left out.\<close>

definition no_options :: "'d genetic_options" where
  "no_options = \<lparr>o_populationSize = None, o_generations = None, o_tournamentSize = None,
     o_eliteRatio = None, o_initialMutationRate = None, o_minMutationRate = None,
     o_maxSwapsPerChromosome = None, o_plateauThreshold = None\<rparr>"

text \<open>What a replay keeps true on a valid input: the topology object stays a built one with the
  graph \<open>g\<close>, the layout is a permutation of \<open>0..nQubits-1\<close>, and the penalty is finite.\<close>

definition replay_ok :: "QuantumCircuit \<Rightarrow> graph \<Rightarrow> 'a mstate_scheme \<Rightarrow> bool" where
  "replay_ok c g s =
     (same_built g (st_hw s)
      \<and> mset (elems (st_layout s)) = mset (map Some [0..<nat (nQubits c)])
      \<and> st_distancePenalty s \<noteq> Infinity)"

text \<open>Every call of \<open>Math.random()\<close> returns a double in \<open>[0, 1)\<close>: for an integer \<open>k > 0\<close>,
  \<open>Math.floor(Math.random() * k)\<close> is one of \<open>0, ..., k - 1\<close>.\<close>

definition draws_in_range :: "'d doubleops \<Rightarrow> 'd rng \<Rightarrow> bool" where
  "draws_in_range D rnd =
     (\<forall>i k. 0 < k \<longrightarrow> 0 \<le> d_floor_times D (rnd i) k \<and> d_floor_times D (rnd i) k < k)"

text \<open>No memoized fitness is \<open>-Infinity\<close>.\<close>

definition cache_finite :: "fitnessCache \<Rightarrow> bool" where
  "cache_finite fc = (\<forall>k. fc k \<noteq> Some NegInfinity)"

text \<open>What the generation loop keeps true on a valid input: the population is not empty and
  none of its chromosomes has an \<open>undefined\<close> gene; the memo and the topology object are as
  above; and \<open>bestEver\<close> is a chromosome as soon as \<open>bestEverFitness\<close> is not \<open>-Infinity\<close>.\<close>

definition search_ok :: "graph \<Rightarrow> 'd search \<Rightarrow> bool" where
  "search_ok g st =
     (population st \<noteq> [] \<and> (\<forall>ch \<in> set (population st). defined_genes ch)
      \<and> cache_finite (cache st) \<and> same_built g (hardware st)
      \<and> (bestEverFitness st = NegInfinity
          \<or> (\<exists>genes. bestEver st = Some genes \<and> defined_genes genes)))"


text \<open>The one-qubit circuit \<open>h(0)\<close> and the one-qubit chain, a device without an edge.\<close>

definition one_h :: QuantumCircuit where
  "one_h = \<lparr>nQubits = 1, gates = [\<lparr>gtype = ''h'', qubits = [0]\<rparr>]\<rparr>"

definition chain1 :: HardwareTopology where
  "chain1 = new_HardwareTopology ''lnn'' \<lparr>p_qubits = Some 1, p_rows = None, p_cols = None\<rparr>"

text \<open>A \<open>Math.random()\<close> that returns \<open>0\<close> at every call.\<close>

definition always_zero :: "rat rng" where
  "always_zero i = 0"

section \<open>Inputs the specification calls invalid\<close>

text \<open>
  Claim C1, as stated: a Circuit with \<open>nQubits < 1\<close>, a gate with an operand outside
  \<open>[0, nQubits)\<close>, an unrecognized shape tag and a zero-qubit device each raise an error.
  The code validates none of them: each of the four calls returns normally.
\<close>

theorem invalid_inputs_raise_counterexample:
  "\<not> ((\<exists>e. new_QuantumCircuit 0 = Inl e)
      \<or> (\<exists>e. addGate \<lparr>nQubits = 2, gates = []\<rparr> ''cx'' [0, 7] = Inl e)
      \<or> (\<exists>e. construct_HardwareTopology ''ring'' \<lparr>p_qubits = Some 4, p_rows = None, p_cols = None\<rparr> = Inl e)
      \<or> (\<exists>e. construct_HardwareTopology ''lnn'' \<lparr>p_qubits = Some 0, p_rows = None, p_cols = None\<rparr> = Inl e))"
  by (simp add: new_QuantumCircuit_def addGate_def construct_HardwareTopology_def)

text \<open>
  Claim C1, amended: none of these inputs raises. The Circuit constructor keeps whatever
  \<open>nQubits\<close> it is given and starts with no gates; \<open>addGate\<close> appends the gate whatever its
  operand indices are; a Topology with an unrecognized shape tag is built with an empty
  graph; and \<open>lnn\<close> or \<open>star\<close> with \<open>qubits = 0\<close> is built as the default 5-qubit device.
\<close>

theorem invalid_inputs_are_accepted:
  "new_QuantumCircuit n = Inr \<lparr>nQubits = n, gates = []\<rparr>
   \<and> addGate c ty qs = Inr (c\<lparr>gates := gates c @ [\<lparr>gtype = ty, qubits = qs\<rparr>]\<rparr>)
   \<and> (\<exists>hw. construct_HardwareTopology tag ps = Inr hw
         \<and> (tag \<noteq> ''lnn'' \<and> tag \<noteq> ''grid2d'' \<and> tag \<noteq> ''star'' \<longrightarrow> graph hw = [])
         \<and> (tag = ''lnn'' \<and> p_qubits ps = Some 0 \<longrightarrow> graph hw = lnn_graph 5)
         \<and> (tag = ''star'' \<and> p_qubits ps = Some 0 \<longrightarrow> graph hw = star_graph 5))"
  by (simp add: new_QuantumCircuit_def addGate_def construct_HardwareTopology_def
      new_HardwareTopology_def buildGraph_def js_or_def)

theorem invalid_inputs_are_accepted_witness:
  "new_QuantumCircuit 0 = Inr \<lparr>nQubits = 0, gates = []\<rparr>
   \<and> addGate \<lparr>nQubits = 2, gates = []\<rparr> ''cx'' [0, 7]
       = Inr \<lparr>nQubits = 2, gates = [\<lparr>gtype = ''cx'', qubits = [0, 7]\<rparr>]\<rparr>
   \<and> map_sum id graph (construct_HardwareTopology ''ring'' \<lparr>p_qubits = Some 4, p_rows = None, p_cols = None\<rparr>)
       = Inr []
   \<and> map_sum id graph (construct_HardwareTopology ''lnn'' \<lparr>p_qubits = Some 0, p_rows = None, p_cols = None\<rparr>)
       = Inr (lnn_graph 5)
   \<and> map_sum id graph (construct_HardwareTopology ''star'' \<lparr>p_qubits = Some 0, p_rows = None, p_cols = None\<rparr>)
       = Inr (star_graph 5)"
proof -
  let ?p4 = "\<lparr>p_qubits = Some 4, p_rows = None, p_cols = None\<rparr>"
  let ?p0 = "\<lparr>p_qubits = Some 0, p_rows = None, p_cols = None\<rparr>"
  have "''ring'' \<noteq> ''lnn'' \<and> ''ring'' \<noteq> ''grid2d'' \<and> ''ring'' \<noteq> ''star''" by simp
  with invalid_inputs_are_accepted[of 0 "\<lparr>nQubits = 2, gates = []\<rparr>" "''cx''" "[0, 7]" "''ring''" ?p4]
  have a: "new_QuantumCircuit 0 = Inr \<lparr>nQubits = 0, gates = []\<rparr>"
    "addGate \<lparr>nQubits = 2, gates = []\<rparr> ''cx'' [0, 7]
       = Inr \<lparr>nQubits = 2, gates = [\<lparr>gtype = ''cx'', qubits = [0, 7]\<rparr>]\<rparr>"
    "map_sum id graph (construct_HardwareTopology ''ring'' ?p4) = Inr []"
    by auto
  from invalid_inputs_are_accepted[of 0 "\<lparr>nQubits = 2, gates = []\<rparr>" "''cx''" "[0, 7]" "''lnn''" ?p0]
  have b: "map_sum id graph (construct_HardwareTopology ''lnn'' ?p0) = Inr (lnn_graph 5)"
    by auto
  from invalid_inputs_are_accepted[of 0 "\<lparr>nQubits = 2, gates = []\<rparr>" "''cx''" "[0, 7]" "''star''" ?p0]
  have c: "map_sum id graph (construct_HardwareTopology ''star'' ?p0) = Inr (star_graph 5)"
    by auto
  from a b c show ?thesis by simp
qed

section \<open>Invariants of the swap loops\<close>

text \<open>Whatever the three loops preserve step by step holds when they return.\<close>

lemma greedy_loop_invariant:
  assumes "greedy_loop c t s = Some s'" and "P s"
    and step: "\<And>s q1 q2. P s \<Longrightarrow> P (push_swap q1 q2 s)"
  shows "P s'"
proof -
  have "P s \<longrightarrow> P s'"
  proof (rule greedy_loop.raw_induct[where P = "\<lambda>c t s s'. P s \<longrightarrow> P s'", OF _ assms(1)], goal_cases)
    case (1 loop c t s s')
    then show ?case using step by (auto simp: Let_def split: if_splits)
  qed
  with assms(2) show ?thesis by simp
qed

lemma lookahead_loop_invariant:
  assumes "lookahead_loop F circ la gi c t s = Some s'" and "P s"
    and step: "\<And>s q1 q2. P s \<Longrightarrow> P (push_swap q1 q2 s)"
    and hw: "\<And>s l i. P s \<Longrightarrow> P (s\<lparr>st_hw := snd (findBestSwap F circ la l i (st_hw s))\<rparr>)"
  shows "P s'"
proof -
  have "F' = F \<and> circ' = circ \<and> la' = la \<and> P s \<longrightarrow> P s'"
    if "lookahead_loop F' circ' la' gi c t s = Some s'" for F' circ' la'
  proof (rule lookahead_loop.raw_induct[where P = "\<lambda>F' circ' la' gi c t s s'.
            F' = F \<and> circ' = circ \<and> la' = la \<and> P s \<longrightarrow> P s'", OF _ that], goal_cases)
    case (1 loop F' circ' la' gi c t s s')
    show ?case
    proof (intro impI, elim conjE)
      assume eq: "F' = F" "circ' = circ" "la' = la" and P: "P s"
      obtain b h where fb: "findBestSwap F circ la (st_layout s) gi (st_hw s) = (b, h)"
        by (cases "findBestSwap F circ la (st_layout s) gi (st_hw s)")
      from hw[OF P, of "st_layout s" gi] fb have Ph: "P (s\<lparr>st_hw := h\<rparr>)" by simp
      show "P s'"
      proof (cases "isConnected (st_hw s) (lget (st_layout s) c) (lget (st_layout s) t)")
        case True
        with 1(2) P show ?thesis by simp
      next
        case False
        show ?thesis
        proof (cases b)
          case None
          with 1(2) False fb eq Ph show ?thesis by simp
        next
          case (Some e)
          obtain q1 q2 where e: "e = (q1, q2)" by (cases e)
          from 1(2) False fb eq Some e
          have "loop F circ la gi c t (push_swap (Some q1) (Some q2) (s\<lparr>st_hw := h\<rparr>)) = Some s'"
            by simp
          from 1(1)[OF this] step[OF Ph] show ?thesis by simp
        qed
      qed
    qed
  qed
  from this[OF assms(1)] assms(2) show ?thesis by simp
qed

lemma genetic_loop_invariant:
  assumes "genetic_loop chrom c t s = Inr s'" and "P s"
    and step: "\<And>s q1 q2. P s \<Longrightarrow> indexOf (elems (st_layout s)) (Some q1) \<noteq> - 1 \<Longrightarrow>
                 indexOf (elems (st_layout s)) (Some q2) \<noteq> - 1 \<Longrightarrow> P (push_swap (Some q1) (Some q2) s)"
    and idx: "\<And>s k. P s \<Longrightarrow> P (s\<lparr>st_swapIndex := k\<rparr>)"
  shows "P s'"
  using assms(1,2)
proof (induction chrom c t s rule: genetic_loop.induct)
  case (1 chrom c t s)
  show ?case
  proof (cases "isConnected (st_hw s) (lget (st_layout s) c) (lget (st_layout s) t)")
    case True
    with 1 show ?thesis by simp
  next
    case False
    note nc = False
    show ?thesis
    proof (cases chrom)
      case None
      with 1(2) nc show ?thesis by simp
    next
      case (Some genes)
      show ?thesis
      proof (cases "st_swapIndex s < length genes")
        case False
        with 1(2,3) nc Some show ?thesis by simp
      next
        case True
        show ?thesis
        proof (cases "genes ! st_swapIndex s")
          case None
          with 1(2) nc Some True show ?thesis by simp
        next
          case (Some e)
          obtain q1 q2 where e: "e = (q1, q2)" by (cases e)
          let ?s1 = "(if indexOf (elems (st_layout s)) (Some q1) \<noteq> - 1
                     \<and> indexOf (elems (st_layout s)) (Some q2) \<noteq> - 1
                  then push_swap (Some q1) (Some q2) s else s)\<lparr>st_swapIndex := st_swapIndex s + 1\<rparr>"
          have "genetic_loop chrom c t ?s1 = Inr s'"
            using 1(2) nc \<open>chrom = Some genes\<close> True Some e by simp
          moreover have "P ?s1" using 1(3) step idx by auto
          ultimately show ?thesis
            using 1(1)[OF nc \<open>chrom = Some genes\<close> _ Some e[symmetric]] True by simp
        qed
      qed
    qed
  qed
qed

section \<open>Counters and step indices\<close>

lemma counters_agree_init: "counters_agree (result_of (init_state c hw))"
  by (simp add: counters_agree_def result_of_def init_state_def)

lemma counters_agree_init_g: "counters_agree (result_of (init_gstate c hw))"
  by (simp add: counters_agree_def result_of_def init_gstate_def)

lemma counters_agree_push_swap:
  "counters_agree (result_of s) \<Longrightarrow> counters_agree (result_of (push_swap q1 q2 s))"
  by (simp add: counters_agree_def result_of_def push_swap_def Let_def)

lemma counters_agree_push_native:
  "counters_agree (result_of s) \<Longrightarrow> counters_agree (result_of (push_native gt s))"
  by (simp add: counters_agree_def result_of_def push_native_def)

lemma result_of_add_penalty:
  "result_of (add_penalty c t s) = (result_of s)\<lparr>distancePenalty := st_distancePenalty (add_penalty c t s)\<rparr>"
  by (simp add: result_of_def add_penalty_def Let_def split: prod.splits)

lemma counters_agree_add_penalty:
  "counters_agree (result_of s) \<Longrightarrow> counters_agree (result_of (add_penalty c t s))"
  by (simp add: result_of_add_penalty) (simp add: counters_agree_def)

lemma counters_agree_hw:
  "counters_agree (result_of s) \<Longrightarrow> counters_agree (result_of (s\<lparr>st_hw := h\<rparr>))"
  by (simp add: counters_agree_def result_of_def)

lemma counters_agree_swapIndex:
  "counters_agree (result_of s) \<Longrightarrow> counters_agree (result_of (s\<lparr>st_swapIndex := k\<rparr>))"
  by (simp add: counters_agree_def result_of_def)

lemma for_each_invariant:
  assumes "for_each f xs s = Some s'" and "P s"
    and "\<And>x a b. x \<in> set xs \<Longrightarrow> P a \<Longrightarrow> f x a = Some b \<Longrightarrow> P b"
  shows "P s'"
  using assms
proof (induction xs arbitrary: s)
  case Nil
  then show ?case by simp
next
  case (Cons x xs)
  from Cons.prems(1) obtain s1 where fx: "f x s = Some s1" and rest: "for_each f xs s1 = Some s'"
    by (auto split: option.splits)
  from Cons.prems(3)[OF _ Cons.prems(2) fx] have "P s1" by simp
  show ?case
    by (rule Cons.IH[OF rest \<open>P s1\<close>]) (rule Cons.prems(3), simp_all)
qed

lemma for_each_e_invariant:
  assumes "for_each_e f xs s = Inr s'" and "P s"
    and "\<And>x a b. x \<in> set xs \<Longrightarrow> P a \<Longrightarrow> f x a = Inr b \<Longrightarrow> P b"
  shows "P s'"
  using assms
proof (induction xs arbitrary: s)
  case Nil
  then show ?case by simp
next
  case (Cons x xs)
  from Cons.prems(1) obtain s1 where fx: "f x s = Inr s1" and rest: "for_each_e f xs s1 = Inr s'"
    by (auto split: sum.splits)
  from Cons.prems(3)[OF _ Cons.prems(2) fx] have "P s1" by simp
  show ?case
    by (rule Cons.IH[OF rest \<open>P s1\<close>]) (rule Cons.prems(3), simp_all)
qed

lemma greedy_gate_invariant:
  assumes "greedy_gate gt s = Some s'" and "P s"
    and "\<And>s q1 q2. P s \<Longrightarrow> P (push_swap q1 q2 s)"
    and "\<And>s c t. P s \<Longrightarrow> P (add_penalty c t s)"
    and "\<And>s. P s \<Longrightarrow> P (push_native gt s)"
  shows "P s'"
proof (cases "length (qubits gt) = 2")
  case True
  with assms(1) obtain s1 where l: "greedy_loop (qubits gt ! 0) (qubits gt ! 1) s = Some s1"
    and s': "s' = push_native gt (add_penalty (qubits gt ! 0) (qubits gt ! 1) s1)"
    by (auto simp: greedy_gate_def split: option.splits)
  from greedy_loop_invariant[where P = P, OF l assms(2) assms(3)] have "P s1" .
  with s' assms(4,5) show ?thesis by simp
next
  case False
  with assms(1,2,5) show ?thesis by (auto simp: greedy_gate_def)
qed

lemma lookahead_gate_invariant:
  assumes "lookahead_gate F circ la (gt, gi) s = Some s'" and "P s"
    and "\<And>s q1 q2. P s \<Longrightarrow> P (push_swap q1 q2 s)"
    and "\<And>s l i. P s \<Longrightarrow> P (s\<lparr>st_hw := snd (findBestSwap F circ la l i (st_hw s))\<rparr>)"
    and "\<And>s c t. P s \<Longrightarrow> P (add_penalty c t s)"
    and "\<And>s. P s \<Longrightarrow> P (push_native gt s)"
  shows "P s'"
proof (cases "length (qubits gt) = 2")
  case True
  with assms(1) obtain s1 where
    l: "lookahead_loop F circ la gi (qubits gt ! 0) (qubits gt ! 1) s = Some s1"
    and s': "s' = push_native gt (add_penalty (qubits gt ! 0) (qubits gt ! 1) s1)"
    by (auto simp: lookahead_gate_def split: option.splits)
  from lookahead_loop_invariant[where P = P, OF l assms(2) assms(3) assms(4)] have "P s1" .
  with s' assms(5,6) show ?thesis by simp
next
  case False
  with assms(1,2,6) show ?thesis by (auto simp: lookahead_gate_def)
qed

lemma genetic_gate_invariant:
  assumes "genetic_gate chrom gt s = Inr s'" and "P s"
    and "\<And>s q1 q2. P s \<Longrightarrow> indexOf (elems (st_layout s)) (Some q1) \<noteq> - 1 \<Longrightarrow>
           indexOf (elems (st_layout s)) (Some q2) \<noteq> - 1 \<Longrightarrow> P (push_swap (Some q1) (Some q2) s)"
    and "\<And>s k. P s \<Longrightarrow> P (s\<lparr>st_swapIndex := k\<rparr>)"
    and "\<And>s c t. P s \<Longrightarrow> P (add_penalty c t s)"
    and "\<And>s. P s \<Longrightarrow> P (push_native gt s)"
  shows "P s'"
proof (cases "length (qubits gt) = 2")
  case True
  with assms(1) obtain s1 where l: "genetic_loop chrom (qubits gt ! 0) (qubits gt ! 1) s = Inr s1"
    and s': "s' = push_native gt (add_penalty (qubits gt ! 0) (qubits gt ! 1) s1)"
    by (auto simp: genetic_gate_def split: sum.splits)
  from genetic_loop_invariant[where P = P, OF l assms(2) assms(3) assms(4)] have "P s1" .
  with s' assms(5,6) show ?thesis by simp
next
  case False
  with assms(1,2,6) show ?thesis by (auto simp: genetic_gate_def)
qed

lemma greedy_map_counters:
  assumes "GreedyMapper_map c hw = Some r" shows "counters_agree r"
proof -
  from assms obtain s where run: "for_each greedy_gate (gates c) (init_state c hw) = Some s"
    and r: "r = result_of s"
    by (auto simp: GreedyMapper_map_def)
  have "counters_agree (result_of s)"
  proof (rule for_each_invariant[where P = "\<lambda>s. counters_agree (result_of s)", OF run counters_agree_init])
    fix x :: gate and s s' :: mstate
    assume a: "counters_agree (result_of s)" and b: "greedy_gate x s = Some s'"
    show "counters_agree (result_of s')"
      by (rule greedy_gate_invariant[where P = "\<lambda>s. counters_agree (result_of s)", OF b a])
         (simp_all add: counters_agree_push_swap counters_agree_add_penalty counters_agree_push_native)
  qed
  with r show ?thesis by simp
qed

lemma lookahead_map_counters:
  assumes "LookAheadMapper_map F c hw k = Some r" shows "counters_agree r"
proof -
  from assms obtain s where
    run: "for_each (lookahead_gate F c k) (zip (gates c) [0..<length (gates c)]) (init_state c hw) = Some s"
    and r: "r = result_of s"
    by (auto simp: LookAheadMapper_map_def)
  have "counters_agree (result_of s)"
  proof (rule for_each_invariant[where P = "\<lambda>s. counters_agree (result_of s)", OF run counters_agree_init])
    fix x :: "gate \<times> nat" and s s' :: mstate
    assume a: "counters_agree (result_of s)" and b: "lookahead_gate F c k x s = Some s'"
    obtain gt gi where x: "x = (gt, gi)" by (cases x)
    show "counters_agree (result_of s')"
      by (rule lookahead_gate_invariant[where P = "\<lambda>s. counters_agree (result_of s)", OF b[unfolded x] a])
         (simp_all add: counters_agree_push_swap counters_agree_add_penalty counters_agree_push_native
                      counters_agree_hw)
  qed
  with r show ?thesis by simp
qed

lemma replay_counters:
  assumes "applyChromosome chrom c hw = Inr r" shows "counters_agree r"
proof -
  from assms obtain s where run: "for_each_e (genetic_gate chrom) (gates c) (init_gstate c hw) = Inr s"
    and r: "r = result_of s"
    by (cases "replay chrom c hw") (auto simp: applyChromosome_def replay_def)
  have "counters_agree (result_of s)"
  proof (rule for_each_e_invariant[where P = "\<lambda>s. counters_agree (result_of s)", OF run counters_agree_init_g])
    fix x :: gate and s s' :: gstate
    assume a: "counters_agree (result_of s)" and b: "genetic_gate chrom x s = Inr s'"
    show "counters_agree (result_of s')"
      by (rule genetic_gate_invariant[where P = "\<lambda>s. counters_agree (result_of s)", OF b a])
         (simp_all add: counters_agree_push_swap counters_agree_add_penalty counters_agree_push_native
                      counters_agree_swapIndex)
  qed
  with r show ?thesis by simp
qed


lemma greedy_scenario_A:
  "GreedyMapper_map cx02 chain3 = Some scenario_A_result"
  by code_simp

lemma lookahead_scenario_A:
  "LookAheadMapper_map exact_ops cx02 chain3 3 = Some scenario_A_result"
  by code_simp

lemma replay_scenario_A:
  "applyChromosome (Some [Some (0, 1)]) cx02 chain3 = Inr scenario_A_result"
  by code_simp

text \<open>
  Claim C4. Whenever one of the three strategies returns a result (the greedy mapper, the
  look-ahead mapper under any floating-point arithmetic and window, a replay of any
  chromosome, which is what the genetic optimizer returns), \<open>insertedSwaps\<close> is the number
  of swap steps, \<open>depth\<close> is the number of steps, the steps carry the depth indices
  \<open>0, 1, 2, ...\<close> in order, and \<open>inserted\<close> is true on the swap steps and on no other.
\<close>

theorem result_counters_agree_with_steps:
  "(GreedyMapper_map c hw = Some r1 \<longrightarrow> counters_agree r1)
   \<and> (LookAheadMapper_map F c hw k = Some r2 \<longrightarrow> counters_agree r2)
   \<and> (applyChromosome chrom c hw = Inr r3 \<longrightarrow> counters_agree r3)"
  using greedy_map_counters lookahead_map_counters replay_counters by blast

theorem result_counters_agree_with_steps_witness:
  "GreedyMapper_map cx02 chain3 = Some scenario_A_result
   \<and> LookAheadMapper_map exact_ops cx02 chain3 3 = Some scenario_A_result
   \<and> applyChromosome (Some [Some (0, 1)]) cx02 chain3 = Inr scenario_A_result
   \<and> counters_agree scenario_A_result
   \<and> insertedSwaps scenario_A_result = 1 \<and> depth scenario_A_result = 2
   \<and> map step_depth (steps scenario_A_result) = [0, 1]
   \<and> map step_inserted (steps scenario_A_result) = [True, False]"
  using result_counters_agree_with_steps[of cx02 chain3 scenario_A_result exact_ops 3
      scenario_A_result "Some [Some (0, 1)]" scenario_A_result]
    greedy_scenario_A lookahead_scenario_A replay_scenario_A
  by (simp add: scenario_A_result_def)

section \<open>Breadth-first search computes the hop count\<close>

lemma is_walk_append:
  "is_walk g a (p @ q) b \<longleftrightarrow> (\<exists>m. is_walk g a p m \<and> is_walk g m q b)"
  by (induction p arbitrary: a) auto

lemma is_walk_suffix:
  assumes "is_walk g a p b" and "m \<in> set (a # p)"
  shows "\<exists>q. is_walk g m q b \<and> length q \<le> length p \<and> set (m # q) \<subseteq> set (a # p)"
  using assms
proof (induction p arbitrary: a)
  case Nil
  then show ?case by auto
next
  case (Cons x xs)
  show ?case
  proof (cases "m = a")
    case True
    with Cons.prems(1) show ?thesis by (intro exI[of _ "x # xs"]) auto
  next
    case False
    with Cons.prems have "is_walk g x xs b" "m \<in> set (x # xs)" by auto
    from Cons.IH[OF this] obtain q where "is_walk g m q b" "length q \<le> length xs"
      "set (m # q) \<subseteq> set (x # xs)" by blast
    then show ?thesis by (intro exI[of _ q]) auto
  qed
qed

text \<open>A walk that starts at \<open>n\<close> and ends elsewhere can leave \<open>n\<close> for good: some neighbour
  of \<open>n\<close> starts a shorter walk that never comes back to \<open>n\<close>.\<close>

lemma walk_leaves_start:
  assumes "is_walk g n p b" and "n \<noteq> b"
  shows "\<exists>w q. w \<in> set (adj g n) \<and> is_walk g w q b \<and> Suc (length q) \<le> length p
           \<and> n \<notin> set (w # q) \<and> set (w # q) \<subseteq> set p"
  using assms
proof (induction "length p" arbitrary: p rule: less_induct)
  case less
  from less.prems obtain x xs where p: "p = x # xs" and x: "x \<in> set (adj g n)"
    and xs: "is_walk g x xs b"
    by (cases p) auto
  show ?case
  proof (cases "n \<in> set (x # xs)")
    case False
    with p x xs show ?thesis by (intro exI[of _ x] exI[of _ xs]) auto
  next
    case True
    from is_walk_suffix[OF xs True] obtain q where q: "is_walk g n q b" "length q \<le> length xs"
      "set (n # q) \<subseteq> set (x # xs)" by blast
    then have "length q < length p" using p by simp
    from less.hyps[OF this q(1) less.prems(2)] obtain w r where
      "w \<in> set (adj g n)" "is_walk g w r b" "Suc (length r) \<le> length q"
      "n \<notin> set (w # r)" "set (w # r) \<subseteq> set q" by blast
    with q p show ?thesis by (intro exI[of _ w] exI[of _ r]) auto
  qed
qed

lemma queue_ok_tl: "queue_ok (e # Q) \<Longrightarrow> queue_ok Q"
  by (cases Q) (auto simp: queue_ok_def)

lemma queue_ok_step:
  assumes "queue_ok ((n, d) # Q)"
  shows "queue_ok (Q @ map (\<lambda>nb. (nb, d + 1)) ws)"
proof -
  from assms have s: "sorted (map snd Q)" and lo: "\<forall>e \<in> set Q. d \<le> snd e"
    and hi: "\<forall>e \<in> set Q. snd e \<le> Suc d"
    by (auto simp: queue_ok_def)
  have const: "sorted (map (\<lambda>nb. Suc d) ws)" by (induction ws) auto
  have "sorted (map snd (Q @ map (\<lambda>nb. (nb, d + 1)) ws))"
    using s hi const by (auto simp: sorted_append comp_def)
  moreover have "\<forall>e \<in> set (Q @ map (\<lambda>nb. (nb, d + 1)) ws). snd e \<le> Suc (snd (hd (Q @ map (\<lambda>nb. (nb, d + 1)) ws)))"
  proof (cases Q)
    case Nil
    then show ?thesis by (cases ws) auto
  next
    case (Cons e Q')
    with lo hi show ?thesis by auto
  qed
  ultimately show ?thesis by (simp add: queue_ok_def)
qed

lemma bfs_dist_sound:
  assumes "bfs_dist g q2 V Q = Fin k"
  shows "\<exists>n d p. (n, d) \<in> set Q \<and> is_walk g n p q2 \<and> k = int (d + length p)"
  using assms
proof (induction g q2 V Q rule: bfs_dist.induct)
  case (1 g q2 visited)
  then show ?case by simp
next
  case (2 g q2 visited node dst queue)
  show ?case
  proof (cases "node = q2")
    case True
    with "2.prems" show ?thesis by (intro exI[of _ node] exI[of _ dst] exI[of _ "[]"]) auto
  next
    case ne: False
    show ?thesis
    proof (cases "node \<in> set visited")
      case True
      with ne "2.prems" have "bfs_dist g q2 visited queue = Fin k" by simp
      from "2.IH"(1)[OF ne True this] show ?thesis by auto
    next
      case False
      let ?new = "map (\<lambda>nb. (nb, dst + 1)) (filter (\<lambda>nb. nb \<notin> set (node # visited)) (adj g node))"
      from ne False "2.prems" have "bfs_dist g q2 (node # visited) (queue @ ?new) = Fin k" by simp
      from "2.IH"(2)[OF ne False this] obtain n d p where
        mem: "(n, d) \<in> set (queue @ ?new)" and w: "is_walk g n p q2" and k: "k = int (d + length p)"
        by blast
      show ?thesis
      proof (cases "(n, d) \<in> set queue")
        case True
        with w k show ?thesis by auto
      next
        case False
        with mem have "n \<in> set (adj g node)" "d = dst + 1" by auto
        with w k show ?thesis
          by (intro exI[of _ node] exI[of _ dst] exI[of _ "n # p"]) auto
      qed
    qed
  qed
qed

lemma bfs_dist_complete:
  assumes "queue_ok Q" and "(n, d) \<in> set Q" and "is_walk g n p q2"
    and "set (n # p) \<inter> set V = {}"
  shows "\<exists>k. bfs_dist g q2 V Q = Fin k \<and> k \<le> int (d + length p)"
  using assms
proof (induction g q2 V Q arbitrary: n d p rule: bfs_dist.induct)
  case (1 g q2 visited)
  then show ?case by simp
next
  case (2 g q2 visited node dst queue)
  from "2.prems"(1,2) have dst_le: "dst \<le> d" by (auto simp: queue_ok_def)
  show ?case
  proof (cases "node = q2")
    case True
    with dst_le show ?thesis by simp
  next
    case ne: False
    show ?thesis
    proof (cases "node \<in> set visited")
      case True
      with "2.prems"(2,4) have "(n, d) \<in> set queue" by auto
      from "2.IH"(1)[OF ne True queue_ok_tl[OF "2.prems"(1)] this "2.prems"(3,4)]
      show ?thesis using ne True by simp
    next
      case False
      let ?V = "node # visited"
      let ?new = "map (\<lambda>nb. (nb, dst + 1)) (filter (\<lambda>nb. nb \<notin> set ?V) (adj g node))"
      have ok: "queue_ok (queue @ ?new)" by (rule queue_ok_step[OF "2.prems"(1)])
      have eq: "bfs_dist g q2 visited ((node, dst) # queue) = bfs_dist g q2 ?V (queue @ ?new)"
        using ne False by simp
      show ?thesis
      proof (cases "node \<in> set (n # p)")
        case notin: False
        with "2.prems"(2) have "(n, d) \<in> set (queue @ ?new)" by auto
        moreover from notin "2.prems"(4) have "set (n # p) \<inter> set ?V = {}" by auto
        ultimately show ?thesis
          using "2.IH"(2)[OF ne False ok _ "2.prems"(3)] eq by simp
      next
        case True
        from is_walk_suffix[OF "2.prems"(3) True] obtain q where
          q: "is_walk g node q q2" "length q \<le> length p" "set (node # q) \<subseteq> set (n # p)" by blast
        from walk_leaves_start[OF q(1) ne] obtain w r where
          w: "w \<in> set (adj g node)" "is_walk g w r q2" "Suc (length r) \<le> length q"
             "node \<notin> set (w # r)" "set (w # r) \<subseteq> set q" by blast
        from w(4,5) q(3) "2.prems"(4) have av: "set (w # r) \<inter> set ?V = {}" by auto
        then have "w \<notin> set ?V" by auto
        with w(1) have "(w, dst + 1) \<in> set (queue @ ?new)" by auto
        from "2.IH"(2)[OF ne False ok this w(2) av] obtain k where
          "bfs_dist g q2 ?V (queue @ ?new) = Fin k" "k \<le> int (dst + 1 + length r)" by blast
        with eq w(3) q(2) dst_le show ?thesis by auto
      qed
    qed
  qed
qed

declare bfs_dist.simps(2) [simp del] bfs_path.simps(2) [simp del]

lemma hops_walk:
  assumes "hops g a b = Fin k"
  shows "\<exists>p. is_walk g a p b \<and> k = int (length p)"
  using bfs_dist_sound[OF assms[unfolded hops_def]] by auto

lemma hops_le_walk:
  assumes "is_walk g a p b"
  shows "\<exists>k. hops g a b = Fin k \<and> k \<le> int (length p)"
proof -
  have "queue_ok [(a, 0)]" by (simp add: queue_ok_def)
  from bfs_dist_complete[OF this _ assms, of 0 "[]"] show ?thesis
    by (simp add: hops_def)
qed

lemma hops_Infinity_iff: "hops g a b = Infinity \<longleftrightarrow> \<not> reachable g a b"
proof
  assume inf: "hops g a b = Infinity"
  show "\<not> reachable g a b"
  proof
    assume "reachable g a b"
    then obtain p where "is_walk g a p b" by (auto simp: reachable_def)
    from hops_le_walk[OF this] inf show False by auto
  qed
next
  assume nr: "\<not> reachable g a b"
  show "hops g a b = Infinity"
  proof (cases "hops g a b")
    case (Fin k)
    from hops_walk[OF this] nr show ?thesis by (auto simp: reachable_def)
  qed simp
qed

lemma hops_self: "hops g a a = Fin 0"
  by (simp add: hops_def bfs_dist.simps(2))

lemma is_walk_rev:
  assumes "symmetric_graph g" and "is_walk g a p b"
  shows "\<exists>q. is_walk g b q a \<and> length q = length p"
  using assms(2)
proof (induction p arbitrary: a)
  case Nil
  then show ?case by (intro exI[of _ "[]"]) simp
next
  case (Cons x xs)
  then have x: "x \<in> set (adj g a)" and "is_walk g x xs b" by auto
  from Cons.IH[OF this(2)] obtain q where q: "is_walk g b q x" "length q = length xs" by blast
  from x assms(1) have "a \<in> set (adj g x)" by (auto simp: symmetric_graph_def)
  with q have "is_walk g b (q @ [a]) a" by (auto simp: is_walk_append)
  with q(2) show ?case by (intro exI[of _ "q @ [a]"]) simp
qed

lemma hops_le_sym:
  assumes "symmetric_graph g" and "hops g a b = Fin k"
  shows "\<exists>j. hops g b a = Fin j \<and> j \<le> k"
proof -
  from hops_walk[OF assms(2)] obtain p where "is_walk g a p b" "k = int (length p)" by blast
  with is_walk_rev[OF assms(1) this(1)] obtain q where "is_walk g b q a" "int (length q) = k" by auto
  with hops_le_walk[OF this(1)] show ?thesis by auto
qed

lemma hops_sym:
  assumes "symmetric_graph g"
  shows "hops g a b = hops g b a"
proof (cases "hops g a b")
  case (Fin k)
  from hops_le_sym[OF assms this] obtain j where j: "hops g b a = Fin j" "j \<le> k" by blast
  from hops_le_sym[OF assms j(1)] Fin j(2) show ?thesis using j(1) by auto
next
  case Infinity
  show ?thesis
  proof (cases "hops g b a")
    case (Fin j)
    from hops_le_sym[OF assms this] Infinity show ?thesis by auto
  qed (simp add: Infinity)
qed

text \<open>The two searches run in lockstep: the queue of \<open>getShortestPath\<close> holds, with each
  node, a path that is one longer than the hop count the queue of \<open>distance\<close> holds.\<close>

lemma bfs_path_dist:
  assumes "\<forall>e \<in> set Q. snd e \<noteq> []"
  shows "bfs_dist g q2 V (map (\<lambda>(n, p). (n, length p - 1)) Q)
         = (if bfs_path g q2 V Q = [] then Infinity else Fin (int (length (bfs_path g q2 V Q)) - 1))"
  using assms
proof (induction g q2 V Q rule: bfs_path.induct)
  case (1 g q2 visited)
  then show ?case by simp
next
  case (2 g q2 visited node path queue)
  from "2.prems" have ne: "path \<noteq> []" and rest: "\<forall>e \<in> set queue. snd e \<noteq> []" by auto
  let ?f = "\<lambda>(n, p). (n, length p - 1)"
  show ?case
  proof (cases "node = q2")
    case True
    with ne show ?thesis by (simp add: of_nat_diff Suc_le_eq bfs_dist.simps(2) bfs_path.simps(2))
  next
    case nq: False
    show ?thesis
    proof (cases "node \<in> set visited")
      case True
      with nq "2.IH"(1)[OF nq True rest] show ?thesis
        by (simp add: bfs_dist.simps(2) bfs_path.simps(2))
    next
      case False
      let ?ws = "filter (\<lambda>nb. nb \<notin> set (node # visited)) (adj g node)"
      let ?Q = "queue @ map (\<lambda>nb. (nb, path @ [nb])) ?ws"
      have all: "\<forall>e \<in> set ?Q. snd e \<noteq> []"
        using rest by auto
      have mapeq: "map ?f ?Q = map ?f queue @ map (\<lambda>nb. (nb, (length path - 1) + 1)) ?ws"
        using ne by (simp add: comp_def)
      have R: "bfs_path g q2 visited ((node, path) # queue) = bfs_path g q2 (node # visited) ?Q"
        by (simp only: bfs_path.simps(2) nq False if_False)
      have L: "bfs_dist g q2 visited (map ?f ((node, path) # queue)) = bfs_dist g q2 (node # visited) (map ?f ?Q)"
        unfolding mapeq by (simp only: list.map prod.case bfs_dist.simps(2) nq False if_False)
      show ?thesis unfolding L R by (rule "2.IH"(2)[OF nq False all])
    qed
  qed
qed

lemma getShortestPath_hops:
  "hops (graph hw) q1 q2 = (if getShortestPath hw q1 q2 = [] then Infinity
                             else Fin (int (length (getShortestPath hw q1 q2)) - 1))"
  using bfs_path_dist[of "[(q1, [q1])]" "graph hw" q2 "[]"]
  by (simp add: hops_def getShortestPath_def)

section \<open>The distance memo\<close>

lemma distance_graph [simp]: "graph (snd (distance hw x y)) = graph hw"
  by (simp add: distance_def Let_def split: option.splits)

lemma distance_sound:
  assumes "symmetric_graph (graph hw)" and "cache_sound hw"
  shows "fst (distance hw (Some a) (Some b)) = hops (graph hw) (Some a) (Some b)"
proof (cases "distanceCache hw (Some (min a b, max a b))")
  case None
  then show ?thesis by (simp add: distance_def cache_key_def hops_def Let_def)
next
  case (Some d)
  with assms(2) have "d = hops (graph hw) (Some (min a b)) (Some (max a b))"
    by (simp add: cache_sound_def)
  also have "\<dots> = hops (graph hw) (Some a) (Some b)"
    using hops_sym[OF assms(1), of "Some a" "Some b"] by (cases "a \<le> b") (simp_all add: min_def max_def)
  finally show ?thesis using Some by (simp add: distance_def cache_key_def)
qed

lemma distance_keeps_cache_sound:
  assumes "symmetric_graph (graph hw)" and "cache_sound hw"
  shows "cache_sound (snd (distance hw x y))"
proof (cases "distanceCache hw (cache_key x y)")
  case (Some d)
  with assms(2) show ?thesis by (simp add: distance_def)
next
  case None
  show ?thesis
  proof (cases "cache_key x y")
    case nan: None
    with None assms(2) show ?thesis by (simp add: distance_def cache_sound_def hops_def Let_def)
  next
    case (Some k)
    then obtain a b where xy: "x = Some a" "y = Some b" and k: "k = (min a b, max a b)"
      by (auto simp: cache_key_def split: option.splits)
    have "hops (graph hw) (Some a) (Some b) = hops (graph hw) (Some (min a b)) (Some (max a b))"
      using hops_sym[OF assms(1), of "Some a" "Some b"] by (cases "a \<le> b") (simp_all add: min_def max_def)
    with None Some xy k assms(2) show ?thesis
      by (auto simp: distance_def cache_sound_def hops_def Let_def)
  qed
qed

section \<open>The three device shapes\<close>

lemma map_of_tabulate:
  "map_of (map (\<lambda>i. (i, f i)) xs) k = (if k \<in> set xs then Some (f k) else None)"
  by (induction xs) auto

lemma adj_lnn:
  "adj (lnn_graph n) (Some i) =
     (if i < nat n then map Some ((if i > 0 then [i - 1] else []) @ (if int i < n - 1 then [i + 1] else []))
      else [])"
  by (simp add: adj_def lnn_graph_def map_of_tabulate)

lemma adj_star:
  "adj (star_graph n) (Some i) =
     (if i = 0 then map Some [1..<nat n] else if i < nat n then [Some 0] else [])"
  by (simp add: adj_def star_graph_def map_of_tabulate)

lemma concat_rows:
  "concat (map (\<lambda>r. map (\<lambda>c. h r c) [0..<C]) [0..<R]) = map (\<lambda>k. h (k div C) (k mod C)) [0..<R * C]"
proof (induction R)
  case 0
  show ?case by simp
next
  case (Suc R)
  have "[0..<Suc R * C] = [0..<R * C] @ map (\<lambda>c. R * C + c) [0..<C]"
    using upt_add_eq_append[of 0 "R * C" C] by (simp add: map_add_upt add.commute)
  moreover have "map (\<lambda>k. h (k div C) (k mod C)) (map (\<lambda>c. R * C + c) [0..<C]) = map (\<lambda>c. h R c) [0..<C]"
    by (auto simp: comp_def)
  ultimately show ?case using Suc by simp
qed

lemma grid_graph_tabulate:
  "grid_graph R C = map (\<lambda>k. (k, snd (grid_cell R C (k div nat C) (k mod nat C)))) [0..<nat R * nat C]"
proof -
  have "grid_graph R C = map (\<lambda>k. grid_cell R C (k div nat C) (k mod nat C)) [0..<nat R * nat C]"
    unfolding grid_graph_def by (rule concat_rows)
  also have "\<dots> = map (\<lambda>k. (k, snd (grid_cell R C (k div nat C) (k mod nat C)))) [0..<nat R * nat C]"
    by (rule map_cong) (auto simp: grid_cell_def Let_def)
  finally show ?thesis .
qed

lemma adj_grid:
  "adj (grid_graph R C) (Some k) =
     (if k < nat R * nat C then map Some (snd (grid_cell R C (k div nat C) (k mod nat C))) else [])"
  by (simp add: adj_def grid_graph_tabulate map_of_tabulate)

lemma adj_None [simp]: "adj g None = []"
  by (simp add: adj_def)

lemma adj_Some_only: "x \<in> set (adj g a) \<Longrightarrow> \<exists>i j. a = Some i \<and> x = Some j"
  by (auto simp: adj_def split: option.splits)

lemma symmetric_lnn: "symmetric_graph (lnn_graph n)"
  unfolding symmetric_graph_def
proof (intro allI impI)
  fix a b assume "b \<in> set (adj (lnn_graph n) a)"
  moreover from this obtain i j where "a = Some i" "b = Some j" by (auto dest: adj_Some_only)
  ultimately show "a \<in> set (adj (lnn_graph n) b)"
    by (auto simp: adj_lnn split: if_splits)
qed

lemma symmetric_star: "symmetric_graph (star_graph n)"
  unfolding symmetric_graph_def
proof (intro allI impI)
  fix a b assume "b \<in> set (adj (star_graph n) a)"
  moreover from this obtain i j where "a = Some i" "b = Some j" by (auto dest: adj_Some_only)
  ultimately show "a \<in> set (adj (star_graph n) b)"
    by (auto simp: adj_star split: if_splits)
qed

lemma loop_free_lnn: "loop_free (lnn_graph n)"
  unfolding loop_free_def
proof
  fix a show "a \<notin> set (adj (lnn_graph n) a)"
    by (cases a) (auto simp: adj_lnn)
qed

lemma loop_free_star: "loop_free (star_graph n)"
  unfolding loop_free_def
proof
  fix a show "a \<notin> set (adj (star_graph n) a)"
    by (cases a) (auto simp: adj_star)
qed

lemma adj_grid_cell:
  assumes "r < nat R" and "c < nat C"
  shows "adj (grid_graph R C) (Some (r * nat C + c)) =
     map Some ((if c > 0 then [r * nat C + c - 1] else []) @
               (if Suc c < nat C then [r * nat C + c + 1] else []) @
               (if r > 0 then [r * nat C + c - nat C] else []) @
               (if Suc r < nat R then [r * nat C + c + nat C] else []))"
proof -
  from assms have "r * nat C + c < nat R * nat C"
    by (metis add.commute div_mult_self3 div_less less_mult_imp_div_less add_0 mult.commute
        div_less_iff_less_mult less_nat_zero_code neq0_conv nat_neq_iff)
  moreover have "(r * nat C + c) div nat C = r" "(r * nat C + c) mod nat C = c"
    using assms by auto
  moreover have "(int c < C - 1) = (Suc c < nat C)" "(int r < R - 1) = (Suc r < nat R)"
    using assms by auto
  ultimately show ?thesis
    by (simp add: adj_grid grid_cell_def Let_def)
qed

lemma grid_coords:
  assumes "k < nat R * nat C"
  obtains r c where "k = r * nat C + c" "r < nat R" "c < nat C"
proof
  show "k = (k div nat C) * nat C + k mod nat C" by simp
  from assms show "k div nat C < nat R"
    by (simp add: less_mult_imp_div_less)
  from assms show "k mod nat C < nat C"
    by (cases "nat C = 0") auto
qed

lemma adj_grid_range:
  assumes "x \<in> set (adj (grid_graph R C) a)"
  obtains r c where "a = Some (r * nat C + c)" "r < nat R" "c < nat C"
proof -
  from assms obtain k where a: "a = Some k" by (auto dest: adj_Some_only)
  with assms have "k < nat R * nat C" by (auto simp: adj_grid split: if_splits)
  from grid_coords[OF this] a that show thesis by blast
qed

lemma symmetric_grid: "symmetric_graph (grid_graph R C)"
  unfolding symmetric_graph_def
proof (intro allI impI)
  fix a b assume ab: "b \<in> set (adj (grid_graph R C) a)"
  from adj_grid_range[OF ab] obtain r c where a: "a = Some (r * nat C + c)" and r: "r < nat R" and c: "c < nat C"
    by blast
  let ?k = "r * nat C + c"
  from ab consider
      (left) "c > 0" "b = Some (?k - 1)"
    | (right) "Suc c < nat C" "b = Some (?k + 1)"
    | (up) "r > 0" "b = Some (?k - nat C)"
    | (down) "Suc r < nat R" "b = Some (?k + nat C)"
    unfolding a adj_grid_cell[OF r c] by (auto split: if_splits)
  then show "a \<in> set (adj (grid_graph R C) b)"
  proof cases
    case left
    then have b: "b = Some (r * nat C + (c - 1))" by simp
    show ?thesis unfolding b a using left(1) c adj_grid_cell[OF r, of "c - 1" C]
      by auto
  next
    case right
    then have b: "b = Some (r * nat C + (c + 1))" by simp
    show ?thesis unfolding b a using right(1) adj_grid_cell[OF r, of "c + 1" C]
      by auto
  next
    case up
    then have b: "b = Some ((r - 1) * nat C + c)" by (cases r) auto
    have "r - 1 < nat R" using r by simp
    from adj_grid_cell[OF this c] up(1) r show ?thesis unfolding b a
      by (cases r) auto
  next
    case down
    then have b: "b = Some ((r + 1) * nat C + c)" by simp
    have "r + 1 < nat R" using down by simp
    from adj_grid_cell[OF this c] show ?thesis unfolding b a
      by auto
  qed
qed

lemma loop_free_grid: "loop_free (grid_graph R C)"
  unfolding loop_free_def
proof
  fix a
  show "a \<notin> set (adj (grid_graph R C) a)"
  proof
    assume aa: "a \<in> set (adj (grid_graph R C) a)"
    from adj_grid_range[OF aa] obtain r c where a: "a = Some (r * nat C + c)" and r: "r < nat R" and c: "c < nat C"
      by blast
    have "nat C \<le> r * nat C + c" if "r > 0" using that by (cases r) auto
    with aa c show False unfolding a adj_grid_cell[OF r c] by (auto split: if_splits)
  qed
qed

lemma symmetric_buildGraph: "symmetric_graph (buildGraph ty ps)"
  by (simp add: buildGraph_def symmetric_lnn symmetric_star symmetric_grid)
     (simp add: symmetric_graph_def adj_def)

lemma loop_free_buildGraph: "loop_free (buildGraph ty ps)"
  by (simp add: buildGraph_def loop_free_lnn loop_free_star loop_free_grid)
     (simp add: loop_free_def adj_def split: option.splits)

lemma built_topology_new: "built_topology (new_HardwareTopology ty ps)"
  by (auto simp: built_topology_def new_HardwareTopology_def cache_sound_def)

lemma built_topology_symmetric: "built_topology hw \<Longrightarrow> symmetric_graph (graph hw)"
  by (auto simp: built_topology_def symmetric_buildGraph)

lemma built_topology_loop_free: "built_topology hw \<Longrightarrow> loop_free (graph hw)"
  by (auto simp: built_topology_def loop_free_buildGraph)

lemma built_topology_distance:
  assumes "built_topology hw" shows "built_topology (snd (distance hw x y))"
  using assms distance_keeps_cache_sound[OF built_topology_symmetric[OF assms], of x y]
  by (simp add: built_topology_def)

lemma built_distance:
  assumes "built_topology hw"
  shows "fst (distance hw (Some a) (Some b)) = hops (graph hw) (Some a) (Some b)"
  using assms distance_sound[OF built_topology_symmetric[OF assms]]
  by (simp add: built_topology_def)

section \<open>Distance and shortest path\<close>

text \<open>
  Claim C7. On every topology the constructor builds, in every state of its memo:
  \<open>distance(q, q) = 0\<close>; \<open>distance(a, b) = distance(b, a)\<close>; when \<open>b\<close> can be reached from
  \<open>a\<close>, \<open>getShortestPath(a, b)\<close> is not empty and \<open>distance(a, b)\<close> is its length minus one;
  when it cannot, \<open>distance\<close> returns \<open>Infinity\<close> and \<open>getShortestPath\<close> the empty array.
  A call of \<open>distance\<close> leaves the topology in such a state again.
\<close>

theorem distance_and_shortest_path:
  assumes "built_topology hw"
  shows "fst (distance hw (Some q) (Some q)) = Fin 0
     \<and> fst (distance hw (Some a) (Some b)) = fst (distance hw (Some b) (Some a))
     \<and> (reachable (graph hw) (Some a) (Some b) \<longrightarrow>
          getShortestPath hw (Some a) (Some b) \<noteq> []
          \<and> fst (distance hw (Some a) (Some b))
              = Fin (int (length (getShortestPath hw (Some a) (Some b))) - 1))
     \<and> (\<not> reachable (graph hw) (Some a) (Some b) \<longrightarrow>
          fst (distance hw (Some a) (Some b)) = Infinity
          \<and> getShortestPath hw (Some a) (Some b) = [])
     \<and> built_topology (snd (distance hw x y))"
proof -
  note d = built_distance[OF assms]
  have "fst (distance hw (Some q) (Some q)) = Fin 0"
    by (simp add: d hops_self)
  moreover have "fst (distance hw (Some a) (Some b)) = fst (distance hw (Some b) (Some a))"
    by (simp add: d hops_sym[OF built_topology_symmetric[OF assms], of "Some a" "Some b"])
  moreover have "getShortestPath hw (Some a) (Some b) \<noteq> []
          \<and> fst (distance hw (Some a) (Some b))
              = Fin (int (length (getShortestPath hw (Some a) (Some b))) - 1)"
    if "reachable (graph hw) (Some a) (Some b)"
    using that hops_Infinity_iff[of "graph hw" "Some a" "Some b"]
      getShortestPath_hops[of hw "Some a" "Some b"]
    by (auto simp: d split: if_splits)
  moreover have "fst (distance hw (Some a) (Some b)) = Infinity
          \<and> getShortestPath hw (Some a) (Some b) = []"
    if "\<not> reachable (graph hw) (Some a) (Some b)"
    using that hops_Infinity_iff[of "graph hw" "Some a" "Some b"]
      getShortestPath_hops[of hw "Some a" "Some b"]
    by (auto simp: d split: if_splits)
  moreover note built_topology_distance[OF assms, of x y]
  ultimately show ?thesis by blast
qed

lemma chain3_paths:
  "getShortestPath chain3 (Some 0) (Some 2) = [Some 0, Some 1, Some 2]"
  "getShortestPath chain3 (Some 0) (Some 7) = []"
  by code_simp+

lemma chain3_distances:
  "fst (distance chain3 (Some 1) (Some 1)) = Fin 0"
  "fst (distance chain3 (Some 0) (Some 2)) = Fin 2"
  "fst (distance chain3 (Some 2) (Some 0)) = Fin 2"
  "fst (distance chain3 (Some 0) (Some 7)) = Infinity"
  by code_simp+

theorem distance_and_shortest_path_witness:
  "built_topology chain3
   \<and> fst (distance chain3 (Some 1) (Some 1)) = Fin 0
   \<and> fst (distance chain3 (Some 0) (Some 2)) = fst (distance chain3 (Some 2) (Some 0))
   \<and> reachable (graph chain3) (Some 0) (Some 2)
   \<and> getShortestPath chain3 (Some 0) (Some 2) = [Some 0, Some 1, Some 2]
   \<and> fst (distance chain3 (Some 0) (Some 2)) = Fin 2
   \<and> \<not> reachable (graph chain3) (Some 0) (Some 7)
   \<and> fst (distance chain3 (Some 0) (Some 7)) = Infinity
   \<and> getShortestPath chain3 (Some 0) (Some 7) = []"
proof -
  have b: "built_topology chain3"
    by (simp add: chain3_def built_topology_new)
  have "is_walk (graph chain3) (Some 0) [Some 1, Some 2] (Some 2)"
    by code_simp
  then have r: "reachable (graph chain3) (Some 0) (Some 2)"
    unfolding reachable_def by blast
  from distance_and_shortest_path[OF b, of 0 0 7] chain3_paths(2)
  have nr: "\<not> reachable (graph chain3) (Some 0) (Some 7)" by auto
  from distance_and_shortest_path[OF b, of 1 0 2] b r nr chain3_paths chain3_distances
  show ?thesis by simp
qed

section \<open>Adjacency, residual distance and the penalty\<close>

lemma adjacent_hops:
  assumes "loop_free g" and "isConnected_g g p1 p2"
  shows "hops g p1 p2 = Fin 1"
proof -
  from assms(2) have e: "p2 \<in> set (adj g p1)" by (simp add: isConnected_g_def)
  then have "is_walk g p1 [p2] p2" by simp
  from hops_le_walk[OF this] obtain k where k: "hops g p1 p2 = Fin k" "k \<le> 1" by auto
  from hops_walk[OF k(1)] obtain p where p: "is_walk g p1 p p2" "k = int (length p)" by blast
  have "p \<noteq> []"
  proof
    assume "p = []"
    with p(1) e assms(1) show False by (auto simp: loop_free_def)
  qed
  with p(2) k show ?thesis by (cases p) auto
qed

lemma num_add_zero [simp]: "num_add x (Fin 0) = x"
  by (cases x) auto

lemma fold_invariant:
  assumes "Q a" and "\<And>x b. x \<in> set xs \<Longrightarrow> Q b \<Longrightarrow> Q (f x b)"
  shows "Q (fold f xs a)"
  using assms by (induction xs arbitrary: a) auto

lemma same_built_distance: "same_built g hw \<Longrightarrow> same_built g (snd (distance hw x y))"
  by (simp add: same_built_def built_topology_distance)

lemma score_layout_built:
  assumes "same_built g hw"
  shows "same_built g (snd (score_layout F upcoming l hw))"
proof -
  have "same_built g (snd (fold (\<lambda>(qs, k, weight) (score, hw).
             let (dst, hw') = distance hw (lget l (qs ! 0)) (lget l (qs ! 1))
             in (f_minus F score (f_times F dst weight), hw')) upcoming (z, hw)))" for z
    by (rule fold_invariant[where Q = "\<lambda>a. same_built g (snd a)"])
       (simp_all add: assms same_built_distance case_prod_beta Let_def)
  then show ?thesis by (simp add: score_layout_def)
qed

lemma try_edge_built:
  assumes "same_built g (snd (snd acc))"
  shows "same_built g (snd (snd (try_edge F upcoming l q1 q2 acc)))"
proof -
  obtain b sc hw where acc: "acc = (b, sc, hw)" by (cases acc)
  with assms have hw: "same_built g hw" by simp
  show ?thesis
    by (simp add: try_edge_def acc Let_def case_prod_beta score_layout_built[OF hw] hw)
qed

lemma findBestSwap_built:
  fixes F :: "'f floatops"
  assumes "same_built g hw"
  shows "same_built g (snd (findBestSwap F circ la l i hw))"
proof -
  let ?inner = "\<lambda>q1 acc. fold (\<lambda>q2. try_edge F (getUpcomingInteractions F circ i la) l q1 q2)
                                (case map_of (graph hw) q1 of None \<Rightarrow> [] | Some ns \<Rightarrow> ns) acc"
  have "same_built g (snd (snd (fold ?inner (map fst (graph hw)) (None, f_neg_infinity F, hw))))"
  proof (rule fold_invariant[where Q = "\<lambda>a. same_built g (snd (snd a))"])
    show "same_built g (snd (snd (None, f_neg_infinity F, hw)))" using assms by simp
  next
    fix q1 and b :: "(nat \<times> nat) option \<times> 'f \<times> HardwareTopology"
    assume "same_built g (snd (snd b))"
    then show "same_built g (snd (snd (?inner q1 b)))"
      by (rule fold_invariant[where Q = "\<lambda>a. same_built g (snd (snd a))"]) (rule try_edge_built)
  qed
  then show ?thesis by (simp add: findBestSwap_def Let_def case_prod_beta)
qed

lemma push_swap_hw [simp]: "st_hw (push_swap q1 q2 s) = st_hw s"
  by (simp add: push_swap_def Let_def)

lemma push_native_fields [simp]:
  "st_hw (push_native gt s) = st_hw s"
  "st_layout (push_native gt s) = st_layout s"
  "st_distancePenalty (push_native gt s) = st_distancePenalty s"
  "st_insertedSwaps (push_native gt s) = st_insertedSwaps s"
  "st_depth (push_native gt s) = st_depth s + 1"
  "st_steps (push_native gt s) = st_steps s @ [Native (gtype gt) (map (lget (st_layout s)) (qubits gt))
       (qubits gt) (elems (st_layout s)) False (st_depth s)]"
  by (simp_all add: push_native_def)

lemma add_penalty_fields [simp]:
  "st_hw (add_penalty c t s) = snd (distance (st_hw s) (lget (st_layout s) c) (lget (st_layout s) t))"
  "st_layout (add_penalty c t s) = st_layout s"
  "st_distancePenalty (add_penalty c t s)
     = num_add (st_distancePenalty s)
         (num_add (fst (distance (st_hw s) (lget (st_layout s) c) (lget (st_layout s) t))) (Fin (- 1)))"
  "st_insertedSwaps (add_penalty c t s) = st_insertedSwaps s"
  "st_depth (add_penalty c t s) = st_depth s"
  "st_steps (add_penalty c t s) = st_steps s"
  by (simp_all add: add_penalty_def split: prod.splits)

lemma isConnected_distance [simp]:
  "isConnected (snd (distance hw x y)) p1 p2 = isConnected hw p1 p2"
  by (simp add: isConnected_def)

lemma isConnected_numbers:
  "isConnected hw p1 p2 \<Longrightarrow> \<exists>a b. p1 = Some a \<and> p2 = Some b"
  by (auto simp: isConnected_def isConnected_g_def dest: adj_Some_only)

text \<open>The step shared by the three strategies once the swap loop has returned the state
  \<open>s1\<close>: add the penalty, push the gate's step.\<close>

lemma emit_after_loop:
  assumes b: "built_topology (st_hw s1)" and g: "graph (st_hw s1) = graph (st_hw s)"
    and p: "st_distancePenalty s1 = st_distancePenalty s"
    and two: "length (qubits gt) = 2"
  shows "gate_emitted gt s (push_native gt (add_penalty (qubits gt ! 0) (qubits gt ! 1) s1))"
proof -
  let ?c = "qubits gt ! 0" and ?t = "qubits gt ! 1"
  let ?p1 = "lget (st_layout s1) ?c" and ?p2 = "lget (st_layout s1) ?t"
  from two have q: "qubits gt = [?c, ?t]"
    by (cases "qubits gt"; cases "tl (qubits gt)") auto
  then have q': "qubits gt = [qubits gt ! 0, qubits gt ! Suc 0]" by simp
  have m: "map (lget (st_layout s1)) (qubits gt) = [?p1, ?p2]"
    by (subst q) simp
  have adj1: "hops (graph (st_hw s1)) ?p1 ?p2 = Fin 1
              \<and> fst (distance (st_hw s1) ?p1 ?p2) = Fin 1" if "isConnected (st_hw s1) ?p1 ?p2"
  proof -
    from that have h: "hops (graph (st_hw s1)) ?p1 ?p2 = Fin 1"
      by (simp add: isConnected_def adjacent_hops[OF built_topology_loop_free[OF b]])
    from isConnected_numbers[OF that] obtain x y where "?p1 = Some x" "?p2 = Some y" by blast
    with built_distance[OF b, of x y] h show ?thesis by simp
  qed
  show ?thesis
    unfolding gate_emitted_def Let_def
    apply (simp add: m built_topology_distance[OF b] p)
    apply (intro conjI)
    subgoal by (rule q')
    subgoal by (rule exI[of _ "st_hw s1"]) (simp add: b g)
    subgoal using adj1 by auto
    done
qed

lemma greedy_loop_hw:
  assumes "greedy_loop c t s = Some s'"
  shows "st_hw s' = st_hw s \<and> st_distancePenalty s' = st_distancePenalty s"
  by (rule greedy_loop_invariant[where P = "\<lambda>x. st_hw x = st_hw s \<and> st_distancePenalty x = st_distancePenalty s", OF assms])
     (simp_all add: push_swap_def Let_def)

lemma lookahead_loop_hw:
  assumes "lookahead_loop F circ la gi c t s = Some s'" and "built_topology (st_hw s)"
  shows "same_built (graph (st_hw s)) (st_hw s') \<and> st_distancePenalty s' = st_distancePenalty s"
  by (rule lookahead_loop_invariant[where P = "\<lambda>x. same_built (graph (st_hw s)) (st_hw x)
            \<and> st_distancePenalty x = st_distancePenalty s", OF assms(1)])
     (simp_all add: assms(2) same_built_def[of _ "st_hw s"] findBestSwap_built push_swap_def Let_def)

lemma genetic_loop_hw:
  assumes "genetic_loop chrom c t s = Inr s'"
  shows "st_hw s' = st_hw s \<and> st_distancePenalty s' = st_distancePenalty s"
  by (rule genetic_loop_invariant[where P = "\<lambda>x. st_hw x = st_hw s \<and> st_distancePenalty x = st_distancePenalty s", OF assms])
     (simp_all add: push_swap_def Let_def)

lemma greedy_loop_exit:
  assumes "greedy_loop c t s = Some s'"
  shows "isConnected (st_hw s') (lget (st_layout s') c) (lget (st_layout s') t)
         \<or> length (getShortestPath (st_hw s') (lget (st_layout s') c) (lget (st_layout s') t)) < 2"
proof (rule greedy_loop.raw_induct[where P = "\<lambda>c t s s'.
          isConnected (st_hw s') (lget (st_layout s') c) (lget (st_layout s') t)
          \<or> length (getShortestPath (st_hw s') (lget (st_layout s') c) (lget (st_layout s') t)) < 2",
        OF _ assms], goal_cases)
  case (1 loop c t s s')
  then show ?case by (auto simp: Let_def split: if_splits)
qed

lemma lookahead_loop_exit:
  assumes "lookahead_loop F circ la gi c t s = Some s'" and "built_topology (st_hw s)"
  shows "isConnected (st_hw s') (lget (st_layout s') c) (lget (st_layout s') t)
         \<or> (\<exists>h. same_built (graph (st_hw s')) h \<and> fst (findBestSwap F circ la (st_layout s') gi h) = None)"
proof -
  have "built_topology (st_hw s) \<longrightarrow>
        isConnected (st_hw s') (lget (st_layout s') c) (lget (st_layout s') t)
         \<or> (\<exists>h. same_built (graph (st_hw s')) h \<and> fst (findBestSwap F circ la (st_layout s') gi h) = None)"
  proof (rule lookahead_loop.raw_induct[where P = "\<lambda>F circ la gi c t s s'. built_topology (st_hw s) \<longrightarrow>
          isConnected (st_hw s') (lget (st_layout s') c) (lget (st_layout s') t)
          \<or> (\<exists>h. same_built (graph (st_hw s')) h \<and> fst (findBestSwap F circ la (st_layout s') gi h) = None)",
        OF _ assms(1)], goal_cases)
    case (1 loop F circ la gi c t s s')
    show ?case
    proof
      assume b: "built_topology (st_hw s)"
      then have sb: "same_built (graph (st_hw s)) (st_hw s)" by (simp add: same_built_def)
      obtain bs h where fb: "findBestSwap F circ la (st_layout s) gi (st_hw s) = (bs, h)"
        by (cases "findBestSwap F circ la (st_layout s) gi (st_hw s)")
      from findBestSwap_built[OF sb, of F circ la "st_layout s" gi] fb
      have h: "same_built (graph (st_hw s)) h" by simp
      show "isConnected (st_hw s') (lget (st_layout s') c) (lget (st_layout s') t)
          \<or> (\<exists>h. same_built (graph (st_hw s')) h \<and> fst (findBestSwap F circ la (st_layout s') gi h) = None)"
      proof (cases "isConnected (st_hw s) (lget (st_layout s) c) (lget (st_layout s) t)")
        case True
        with 1(2) show ?thesis by simp
      next
        case False
        show ?thesis
        proof (cases bs)
          case None
          with 1(2) False fb have s': "s' = s\<lparr>st_hw := h\<rparr>" by simp
          have "same_built (graph (st_hw s')) (st_hw s)
                \<and> fst (findBestSwap F circ la (st_layout s') gi (st_hw s)) = None"
            using h sb fb None by (simp add: s' same_built_def)
          then show ?thesis by blast
        next
          case (Some e)
          obtain q1 q2 where e: "e = (q1, q2)" by (cases e)
          from 1(2) False fb Some e
          have "loop F circ la gi c t (push_swap (Some q1) (Some q2) (s\<lparr>st_hw := h\<rparr>)) = Some s'"
            by simp
          from 1(1)[OF this] h show ?thesis by (simp add: same_built_def)
        qed
      qed
    qed
  qed
  with assms(2) show ?thesis by simp
qed

lemma genetic_loop_exit:
  assumes "genetic_loop chrom c t s = Inr s'"
  shows "isConnected (st_hw s') (lget (st_layout s') c) (lget (st_layout s') t)
         \<or> (\<exists>genes. chrom = Some genes \<and> length genes \<le> st_swapIndex s')"
  using assms
proof (induction chrom c t s rule: genetic_loop.induct)
  case (1 chrom c t s)
  show ?case
  proof (cases "isConnected (st_hw s) (lget (st_layout s) c) (lget (st_layout s) t)")
    case True
    with 1(2) show ?thesis by simp
  next
    case nc: False
    show ?thesis
    proof (cases chrom)
      case None
      with 1(2) nc show ?thesis by simp
    next
      case (Some genes)
      show ?thesis
      proof (cases "st_swapIndex s < length genes")
        case False
        with 1(2) nc Some show ?thesis by simp
      next
        case True
        show ?thesis
        proof (cases "genes ! st_swapIndex s")
          case None
          with 1(2) nc Some True show ?thesis by simp
        next
          case e: (Some e)
          obtain q1 q2 where q: "e = (q1, q2)" by (cases e)
          show ?thesis
            by (rule 1(1)[OF nc Some _ e q[symmetric]]) (use 1(2) nc Some True e q in simp_all)
        qed
      qed
    qed
  qed
qed

lemma greedy_gate_emits:
  assumes "length (qubits gt) = 2" and "built_topology (st_hw s)" and "greedy_gate gt s = Some s'"
  shows "gate_emitted gt s s' \<and> (resolved gt s' \<or> greedy_exhausted gt s')"
proof -
  from assms(1,3) obtain s1 where l: "greedy_loop (qubits gt ! 0) (qubits gt ! 1) s = Some s1"
    and s': "s' = push_native gt (add_penalty (qubits gt ! 0) (qubits gt ! 1) s1)"
    by (auto simp: greedy_gate_def split: option.splits)
  from greedy_loop_hw[OF l] have hw: "st_hw s1 = st_hw s" "st_distancePenalty s1 = st_distancePenalty s"
    by simp_all
  have "gate_emitted gt s s'"
    unfolding s' by (rule emit_after_loop) (simp_all add: hw assms)
  moreover from greedy_loop_exit[OF l] have "resolved gt s' \<or> greedy_exhausted gt s'"
    by (simp add: s' resolved_def greedy_exhausted_def getShortestPath_def)
  ultimately show ?thesis ..
qed

lemma lookahead_gate_emits:
  assumes "length (qubits gt) = 2" and "built_topology (st_hw s)"
    and "lookahead_gate F circ la (gt, gi) s = Some s'"
  shows "gate_emitted gt s s' \<and> (resolved gt s' \<or> lookahead_exhausted F circ la gi s')"
proof -
  from assms(1,3) obtain s1 where
    l: "lookahead_loop F circ la gi (qubits gt ! 0) (qubits gt ! 1) s = Some s1"
    and s': "s' = push_native gt (add_penalty (qubits gt ! 0) (qubits gt ! 1) s1)"
    by (auto simp: lookahead_gate_def split: option.splits)
  from lookahead_loop_hw[OF l assms(2)]
  have hw: "built_topology (st_hw s1)" "graph (st_hw s1) = graph (st_hw s)"
    "st_distancePenalty s1 = st_distancePenalty s"
    by (simp_all add: same_built_def)
  have "gate_emitted gt s s'"
    unfolding s' by (rule emit_after_loop) (simp_all add: hw assms)
  moreover from lookahead_loop_exit[OF l assms(2)]
  have "resolved gt s' \<or> lookahead_exhausted F circ la gi s'"
    by (simp add: s' resolved_def lookahead_exhausted_def)
  ultimately show ?thesis ..
qed

lemma swapIndex_fields [simp]:
  "st_swapIndex (push_native gt s) = st_swapIndex s"
  "st_swapIndex (add_penalty c t s) = st_swapIndex s"
  "st_swapIndex (push_swap q1 q2 s) = st_swapIndex s"
  by (simp_all add: push_native_def add_penalty_def push_swap_def Let_def split: prod.splits)

lemma genetic_gate_emits:
  assumes "length (qubits gt) = 2" and "built_topology (st_hw s)"
    and "genetic_gate chrom gt s = Inr s'"
  shows "gate_emitted gt s s' \<and> (resolved gt s' \<or> genetic_exhausted chrom s')"
proof -
  from assms(1,3) obtain s1 where l: "genetic_loop chrom (qubits gt ! 0) (qubits gt ! 1) s = Inr s1"
    and s': "s' = push_native gt (add_penalty (qubits gt ! 0) (qubits gt ! 1) s1)"
    by (auto simp: genetic_gate_def split: sum.splits)
  from genetic_loop_hw[OF l] have hw: "st_hw s1 = st_hw s" "st_distancePenalty s1 = st_distancePenalty s"
    by simp_all
  have "gate_emitted gt s s'"
    unfolding s' by (rule emit_after_loop) (simp_all add: hw assms)
  moreover from genetic_loop_exit[OF l] have "resolved gt s' \<or> genetic_exhausted chrom s'"
    by (simp add: s' resolved_def genetic_exhausted_def)
  ultimately show ?thesis ..
qed

text \<open>
  Claim C2. Take any state of a run whose topology object is one the constructor built, and
  a gate with two operands. Whenever a strategy returns from that gate, the gate's own step
  is the last step, on the physical images of its operands in the layout of that moment,
  and \<open>distance(p1, p2) - 1\<close> was added to the penalty. If the two images are adjacent
  (the gate resolved) their distance is 1 and the penalty did not change; if they are not,
  the strategy's exhaustion condition holds. The topology object is again a built one, so
  the same holds of the next gate.
\<close>

theorem two_qubit_gate_emission:
  "length (qubits gt) = 2 \<and> built_topology (st_hw s) \<and> built_topology (st_hw g) \<longrightarrow>
     (greedy_gate gt s = Some s1 \<longrightarrow>
        gate_emitted gt s s1 \<and> (resolved gt s1 \<or> greedy_exhausted gt s1))
     \<and> (lookahead_gate F circ lookAhead (gt, gateIdx) s = Some s2 \<longrightarrow>
        gate_emitted gt s s2 \<and> (resolved gt s2 \<or> lookahead_exhausted F circ lookAhead gateIdx s2))
     \<and> (genetic_gate chrom gt g = Inr g1 \<longrightarrow>
        gate_emitted gt g g1 \<and> (resolved gt g1 \<or> genetic_exhausted chrom g1))"
  using greedy_gate_emits lookahead_gate_emits genetic_gate_emits by blast

lemma scenario_A_gates:
  "case greedy_gate cx02_gate (init_state cx02 chain3) of None \<Rightarrow> False
   | Some s' \<Rightarrow> resolved cx02_gate s' \<and> st_distancePenalty s' = Fin 0"
  "case lookahead_gate exact_ops cx02 3 (cx02_gate, 0) (init_state cx02 chain3) of None \<Rightarrow> False
   | Some s' \<Rightarrow> resolved cx02_gate s' \<and> st_distancePenalty s' = Fin 0"
  "case genetic_gate (Some []) cx02_gate (init_gstate cx02 chain3) of Inl e \<Rightarrow> False
   | Inr s' \<Rightarrow> \<not> resolved cx02_gate s' \<and> st_distancePenalty s' = Fin 1"
  by code_simp+

theorem two_qubit_gate_emission_witness:
  "length (qubits cx02_gate) = 2 \<and> built_topology (st_hw (init_state cx02 chain3))
   \<and> built_topology (st_hw (init_gstate cx02 chain3))
   \<and> (\<exists>s'. greedy_gate cx02_gate (init_state cx02 chain3) = Some s'
          \<and> gate_emitted cx02_gate (init_state cx02 chain3) s'
          \<and> resolved cx02_gate s' \<and> st_distancePenalty s' = Fin 0)
   \<and> (\<exists>s'. lookahead_gate exact_ops cx02 3 (cx02_gate, 0) (init_state cx02 chain3) = Some s'
          \<and> gate_emitted cx02_gate (init_state cx02 chain3) s'
          \<and> resolved cx02_gate s' \<and> st_distancePenalty s' = Fin 0)
   \<and> (\<exists>s'. genetic_gate (Some []) cx02_gate (init_gstate cx02 chain3) = Inr s'
          \<and> gate_emitted cx02_gate (init_gstate cx02 chain3) s'
          \<and> genetic_exhausted (Some []) s' \<and> st_distancePenalty s' = Fin 1)"
proof -
  have two: "length (qubits cx02_gate) = 2" by (simp add: cx02_gate_def)
  have b: "built_topology (st_hw (init_state cx02 chain3))"
    "built_topology (st_hw (init_gstate cx02 chain3))"
    by (simp_all add: init_state_def init_gstate_def chain3_def built_topology_new)
  from scenario_A_gates(1) obtain s1 where
    s1: "greedy_gate cx02_gate (init_state cx02 chain3) = Some s1"
        "resolved cx02_gate s1" "st_distancePenalty s1 = Fin 0"
    by (auto split: option.splits)
  from scenario_A_gates(2) obtain s2 where
    s2: "lookahead_gate exact_ops cx02 3 (cx02_gate, 0) (init_state cx02 chain3) = Some s2"
        "resolved cx02_gate s2" "st_distancePenalty s2 = Fin 0"
    by (auto split: option.splits)
  from scenario_A_gates(3) obtain g1 where
    g1: "genetic_gate (Some []) cx02_gate (init_gstate cx02 chain3) = Inr g1"
        "\<not> resolved cx02_gate g1" "st_distancePenalty g1 = Fin 1"
    by (auto split: sum.splits)
  from two_qubit_gate_emission[of cx02_gate "init_state cx02 chain3" "init_gstate cx02 chain3"
      s1 exact_ops cx02 3 0 s2 "Some []" g1] two b s1 s2 g1
  show ?thesis by simp
qed

section \<open>The cursor of the genetic replay\<close>

lemma push_swap_insertedSwaps [simp]:
  "st_insertedSwaps (push_swap q1 q2 s) = st_insertedSwaps s + 1"
  by (simp add: push_swap_def Let_def)

lemma genetic_loop_cursor:
  assumes "genetic_loop chrom c t s = Inr s'"
  shows "st_swapIndex s \<le> st_swapIndex s'
         \<and> st_insertedSwaps s \<le> st_insertedSwaps s'
         \<and> st_insertedSwaps s' - st_insertedSwaps s \<le> st_swapIndex s' - st_swapIndex s
         \<and> (\<not> isConnected (st_hw s) (lget (st_layout s) c) (lget (st_layout s) t)
              \<and> st_swapIndex s < length (the chrom) \<longrightarrow> st_swapIndex s < st_swapIndex s')"
  using assms
proof (induction chrom c t s rule: genetic_loop.induct)
  case (1 chrom c t s)
  show ?case
  proof (cases "isConnected (st_hw s) (lget (st_layout s) c) (lget (st_layout s) t)")
    case True
    with 1(2) show ?thesis by simp
  next
    case nc: False
    show ?thesis
    proof (cases chrom)
      case None
      with 1(2) nc show ?thesis by simp
    next
      case (Some genes)
      show ?thesis
      proof (cases "st_swapIndex s < length genes")
        case False
        with 1(2) nc Some show ?thesis by simp
      next
        case True
        show ?thesis
        proof (cases "genes ! st_swapIndex s")
          case None
          with 1(2) nc Some True show ?thesis by simp
        next
          case e: (Some e)
          obtain q1 q2 where q: "e = (q1, q2)" by (cases e)
          let ?s1 = "(if indexOf (elems (st_layout s)) (Some q1) \<noteq> - 1
                     \<and> indexOf (elems (st_layout s)) (Some q2) \<noteq> - 1
                  then push_swap (Some q1) (Some q2) s else s)\<lparr>st_swapIndex := st_swapIndex s + 1\<rparr>"
          have run: "genetic_loop chrom c t ?s1 = Inr s'"
            using 1(2) nc Some True e q by simp
          have ih: "st_swapIndex ?s1 \<le> st_swapIndex s'"
            "st_insertedSwaps ?s1 \<le> st_insertedSwaps s'"
            "st_insertedSwaps s' - st_insertedSwaps ?s1 \<le> st_swapIndex s' - st_swapIndex ?s1"
            using 1(1)[OF nc Some _ e q[symmetric] run] True by simp_all
          have a: "st_swapIndex ?s1 = st_swapIndex s + 1" by simp
          have b: "st_insertedSwaps s \<le> st_insertedSwaps ?s1"
            "st_insertedSwaps ?s1 \<le> st_insertedSwaps s + 1" by simp_all
          from ih a b show ?thesis by linarith
        qed
      qed
    qed
  qed
qed

lemma genetic_loop_exhausted:
  assumes "length genes \<le> st_swapIndex s"
  shows "genetic_loop (Some genes) c t s = Inr s"
  using assms by simp

declare genetic_loop.simps [simp del]

lemma genetic_gate_exhausted:
  assumes "length genes \<le> st_swapIndex s"
  shows "genetic_gate (Some genes) gt s
         = Inr (push_native gt (if length (qubits gt) = 2
                                then add_penalty (qubits gt ! 0) (qubits gt ! 1) s else s))"
  by (simp add: genetic_gate_def genetic_loop_exhausted[OF assms])

lemma genetic_gate_cursor:
  assumes "genetic_gate chrom gt s = Inr s'"
  shows "st_swapIndex s \<le> st_swapIndex s'
         \<and> st_insertedSwaps s' - st_insertedSwaps s \<le> st_swapIndex s' - st_swapIndex s"
proof (cases "length (qubits gt) = 2")
  case True
  with assms obtain s1 where l: "genetic_loop chrom (qubits gt ! 0) (qubits gt ! 1) s = Inr s1"
    and s': "s' = push_native gt (add_penalty (qubits gt ! 0) (qubits gt ! 1) s1)"
    by (auto simp: genetic_gate_def split: sum.splits)
  from genetic_loop_cursor[OF l] show ?thesis by (simp add: s')
next
  case False
  with assms show ?thesis by (auto simp: genetic_gate_def)
qed

lemma genetic_gate_advances:
  assumes "genetic_gate (Some genes) gt s = Inr s'" and "length (qubits gt) = 2"
    and "\<not> resolved gt s" and "st_swapIndex s < length genes"
  shows "st_swapIndex s < st_swapIndex s'"
proof -
  from assms(1,2) obtain s1 where l: "genetic_loop (Some genes) (qubits gt ! 0) (qubits gt ! 1) s = Inr s1"
    and s': "s' = push_native gt (add_penalty (qubits gt ! 0) (qubits gt ! 1) s1)"
    by (auto simp: genetic_gate_def split: sum.splits)
  from genetic_loop_cursor[OF l] assms(3,4) show ?thesis by (simp add: s' resolved_def)
qed

lemma exhausted_replay_tail:
  assumes "length genes \<le> st_swapIndex s"
  shows "\<exists>s'. for_each_e (genetic_gate (Some genes)) gs s = Inr s'
            \<and> st_swapIndex s' = st_swapIndex s \<and> st_insertedSwaps s' = st_insertedSwaps s
            \<and> st_layout s' = st_layout s
            \<and> (\<exists>new. st_steps s' = st_steps s @ new \<and> length new = length gs \<and> \<not> list_ex is_swap new)"
  using assms
proof (induction gs arbitrary: s)
  case Nil
  then show ?case by simp
next
  case (Cons gt gs)
  let ?s1 = "push_native gt (if length (qubits gt) = 2
                                then add_penalty (qubits gt ! 0) (qubits gt ! 1) s else s)"
  have g: "genetic_gate (Some genes) gt s = Inr ?s1"
    by (rule genetic_gate_exhausted[OF Cons.prems])
  have f: "st_swapIndex ?s1 = st_swapIndex s" "st_insertedSwaps ?s1 = st_insertedSwaps s"
    "st_layout ?s1 = st_layout s" by simp_all
  obtain x where x: "st_steps ?s1 = st_steps s @ [x]" "\<not> is_swap x" by simp
  from Cons.prems f(1) have "length genes \<le> st_swapIndex ?s1" by simp
  from Cons.IH[OF this] obtain s' new where
    r: "for_each_e (genetic_gate (Some genes)) gs ?s1 = Inr s'"
       "st_swapIndex s' = st_swapIndex ?s1" "st_insertedSwaps s' = st_insertedSwaps ?s1"
       "st_layout s' = st_layout ?s1" "st_steps s' = st_steps ?s1 @ new" "length new = length gs"
       "\<not> list_ex is_swap new"
    by blast
  show ?case
  proof (intro exI[of _ s'] conjI)
    show "for_each_e (genetic_gate (Some genes)) (gt # gs) s = Inr s'" using g r(1) by simp
    show "\<exists>new. st_steps s' = st_steps s @ new \<and> length new = length (gt # gs) \<and> \<not> list_ex is_swap new"
      by (rule exI[of _ "x # new"]) (use r x in simp)
  qed (use r f in simp_all)
qed

text \<open>
  Claim C6. A replay starts with the cursor at 0 and hands it from gate to gate: no gate
  ever lowers it, and no gate inserts more swaps than it consumes genes. A two-qubit gate
  that is not resolved when the cursor is still inside the chromosome moves the cursor
  forward. Once the cursor is at or past the chromosome's end, every gate returns without
  an error and without a swap: its step is pushed, and for a two-qubit gate
  \<open>distance - 1\<close> is added to the penalty; so through all later gates the cursor, the
  swap count and the layout stay as they are and only gate steps are appended.
\<close>

theorem genetic_cursor_is_shared:
  "st_swapIndex (init_gstate c hw) = 0
   \<and> (genetic_gate chrom gt s = Inr s' \<longrightarrow>
        st_swapIndex s \<le> st_swapIndex s'
        \<and> st_insertedSwaps s' - st_insertedSwaps s \<le> st_swapIndex s' - st_swapIndex s)
   \<and> (genetic_gate (Some genes) gt s = Inr s' \<and> length (qubits gt) = 2 \<and> \<not> resolved gt s
        \<and> st_swapIndex s < length genes \<longrightarrow> st_swapIndex s < st_swapIndex s')
   \<and> (length genes \<le> st_swapIndex s \<longrightarrow>
        genetic_gate (Some genes) gt s
          = Inr (push_native gt (if length (qubits gt) = 2
                                 then add_penalty (qubits gt ! 0) (qubits gt ! 1) s else s))
        \<and> (\<exists>s'. for_each_e (genetic_gate (Some genes)) gs s = Inr s'
              \<and> st_swapIndex s' = st_swapIndex s \<and> st_insertedSwaps s' = st_insertedSwaps s
              \<and> st_layout s' = st_layout s
              \<and> (\<exists>new. st_steps s' = st_steps s @ new \<and> length new = length gs
                      \<and> \<not> list_ex is_swap new)))"
  using genetic_gate_cursor[of chrom gt s s'] genetic_gate_advances[of genes gt s s']
    genetic_gate_exhausted[of genes s gt] exhausted_replay_tail[of genes s gs]
  by (simp add: init_gstate_def)

lemma two_cx_replay:
  "\<not> resolved cx02_gate (init_gstate two_cx chain3)"
  "case genetic_gate (Some [Some (0, 1)]) cx02_gate (init_gstate two_cx chain3) of
     Inl e \<Rightarrow> False
   | Inr g1 \<Rightarrow> st_swapIndex g1 = 1 \<and> st_insertedSwaps g1 = 1 \<and> st_distancePenalty g1 = Fin 0
       \<and> (case for_each_e (genetic_gate (Some [Some (0, 1)])) [cx12_gate] g1 of
             Inl e \<Rightarrow> False
           | Inr g2 \<Rightarrow> st_distancePenalty g2 = Fin 1)"
  by code_simp+

theorem genetic_cursor_is_shared_witness:
  "length (qubits cx02_gate) = 2 \<and> \<not> resolved cx02_gate (init_gstate two_cx chain3)
   \<and> st_swapIndex (init_gstate two_cx chain3) < length [Some (0, 1)]
   \<and> (\<exists>g1. genetic_gate (Some [Some (0, 1)]) cx02_gate (init_gstate two_cx chain3) = Inr g1
         \<and> st_swapIndex (init_gstate two_cx chain3) < st_swapIndex g1
         \<and> st_insertedSwaps g1 = 1
         \<and> length [Some (0, 1)] \<le> st_swapIndex g1
         \<and> genetic_gate (Some [Some (0, 1)]) cx12_gate g1
              = Inr (push_native cx12_gate (add_penalty 1 2 g1))
         \<and> (\<exists>g2. for_each_e (genetic_gate (Some [Some (0, 1)])) [cx12_gate] g1 = Inr g2
               \<and> st_swapIndex g2 = st_swapIndex g1 \<and> st_insertedSwaps g2 = 1
               \<and> st_distancePenalty g2 = Fin 1))"
proof -
  let ?s0 = "init_gstate two_cx chain3"
  have two: "length (qubits cx02_gate) = 2" "length (qubits cx12_gate) = 2"
    "qubits cx12_gate ! 0 = 1" "qubits cx12_gate ! 1 = 2"
    by (simp_all add: cx02_gate_def cx12_gate_def)
  from two_cx_replay(2) obtain g1 g2 where
    g1: "genetic_gate (Some [Some (0, 1)]) cx02_gate ?s0 = Inr g1"
        "st_swapIndex g1 = 1" "st_insertedSwaps g1 = 1"
    and g2: "for_each_e (genetic_gate (Some [Some (0, 1)])) [cx12_gate] g1 = Inr g2"
        "st_distancePenalty g2 = Fin 1"
    by (auto split: sum.splits)
  from genetic_cursor_is_shared[of two_cx chain3 "Some [Some (0, 1)]" cx02_gate ?s0 g1
      "[Some (0, 1)]" "[]"] g1 two two_cx_replay(1)
  have adv: "st_swapIndex ?s0 = 0" "st_swapIndex ?s0 < st_swapIndex g1" by simp_all
  from genetic_cursor_is_shared[of two_cx chain3 "Some [Some (0, 1)]" cx12_gate g1 g1
      "[Some (0, 1)]" "[cx12_gate]"] g1(2) two
  have tail: "genetic_gate (Some [Some (0, 1)]) cx12_gate g1
              = Inr (push_native cx12_gate (add_penalty 1 2 g1))"
    "\<exists>s'. for_each_e (genetic_gate (Some [Some (0, 1)])) [cx12_gate] g1 = Inr s'
          \<and> st_swapIndex s' = st_swapIndex g1 \<and> st_insertedSwaps s' = st_insertedSwaps g1"
    by auto
  from tail(2) g2 g1(3) have
    "\<exists>g2. for_each_e (genetic_gate (Some [Some (0, 1)])) [cx12_gate] g1 = Inr g2
               \<and> st_swapIndex g2 = st_swapIndex g1 \<and> st_insertedSwaps g2 = 1
               \<and> st_distancePenalty g2 = Fin 1"
    by auto
  with g1 adv tail(1) two two_cx_replay(1) show ?thesis by auto
qed

section \<open>Layout entries\<close>

lemma indexOf_range: "indexOf xs x = - 1 \<or> (0 \<le> indexOf xs x \<and> indexOf xs x < int (length xs))"
  by (induction xs) (auto simp: Let_def)

lemma indexOf_found:
  assumes "indexOf xs x \<noteq> - 1"
  shows "0 \<le> indexOf xs x \<and> nat (indexOf xs x) < length xs \<and> xs ! nat (indexOf xs x) = x"
  using assms
proof (induction xs)
  case Nil
  then show ?case by simp
next
  case (Cons y ys)
  show ?case
  proof (cases "y = x")
    case True
    then show ?thesis by simp
  next
    case False
    with Cons.prems have ne: "indexOf ys x \<noteq> - 1" by (auto simp: Let_def split: if_splits)
    from Cons.IH[OF ne] False ne show ?thesis
      by (simp add: Let_def nat_add_distrib)
  qed
qed

lemma indexOf_missing: "indexOf xs x = - 1 \<longleftrightarrow> x \<notin> set xs"
proof (induction xs)
  case Nil
  show ?case by simp
next
  case (Cons y ys)
  from indexOf_range[of ys x] Cons show ?case by (auto simp: Let_def)
qed

text \<open>A swap of two entries that \<open>indexOf\<close> found exchanges two elements of the array and
  leaves the \<open>-1\<close> property alone.\<close>

lemma swap_entries_found:
  assumes "i \<noteq> - 1" "j \<noteq> - 1" "0 \<le> i" "nat i < length (elems l)" "0 \<le> j" "nat j < length (elems l)"
  shows "swap_entries l i j
         = l\<lparr>elems := (elems l)[nat i := elems l ! nat j, nat j := elems l ! nat i]\<rparr>"
  using assms by (simp add: swap_entries_def lget_def lset_def Let_def)

lemma push_swap_found_layout:
  assumes "indexOf (elems (st_layout s)) q1 \<noteq> - 1" and "indexOf (elems (st_layout s)) q2 \<noteq> - 1"
  shows "\<exists>i j. i < length (elems (st_layout s)) \<and> j < length (elems (st_layout s))
           \<and> elems (st_layout s) ! i = q1 \<and> elems (st_layout s) ! j = q2
           \<and> st_layout (push_swap q1 q2 s)
              = (st_layout s)\<lparr>elems := (elems (st_layout s))[i := q2, j := q1]\<rparr>"
proof -
  let ?xs = "elems (st_layout s)"
  let ?i = "indexOf ?xs q1" and ?j = "indexOf ?xs q2"
  note fi = indexOf_found[OF assms(1)] and fj = indexOf_found[OF assms(2)]
  have "st_layout (push_swap q1 q2 s) = swap_entries (st_layout s) ?i ?j"
    by (simp add: push_swap_def Let_def)
  also have "\<dots> = (st_layout s)\<lparr>elems := ?xs[nat ?i := ?xs ! nat ?j, nat ?j := ?xs ! nat ?i]\<rparr>"
    by (rule swap_entries_found) (use assms fi fj in simp_all)
  finally show ?thesis using fi fj
    by (intro exI[of _ "nat ?i"] exI[of _ "nat ?j"]) simp
qed

lemma numbers_only_push_swap:
  assumes "numbers_only (st_layout s)"
    and "indexOf (elems (st_layout s)) (Some q1) \<noteq> - 1"
    and "indexOf (elems (st_layout s)) (Some q2) \<noteq> - 1"
  shows "numbers_only (st_layout (push_swap (Some q1) (Some q2) s))
         \<and> length (elems (st_layout (push_swap (Some q1) (Some q2) s))) = length (elems (st_layout s))"
proof -
  from push_swap_found_layout[OF assms(2,3)] obtain i j where
    "st_layout (push_swap (Some q1) (Some q2) s)
       = (st_layout s)\<lparr>elems := (elems (st_layout s))[i := Some q2, j := Some q1]\<rparr>"
    by blast
  with assms(1) show ?thesis
    by (auto simp: numbers_only_def dest!: set_update_subset_insert[THEN subsetD])
qed

lemma genetic_loop_numbers:
  assumes "genetic_loop chrom c t s = Inr s'" and "numbers_only (st_layout s)"
  shows "numbers_only (st_layout s') \<and> length (elems (st_layout s')) = length (elems (st_layout s))"
  by (rule genetic_loop_invariant[where P = "\<lambda>x. numbers_only (st_layout x)
          \<and> length (elems (st_layout x)) = length (elems (st_layout s))", OF assms(1)])
     (simp_all add: assms(2) numbers_only_push_swap)

lemma numbers_only_lget:
  assumes "numbers_only l" and "0 \<le> q" and "q < int (length (elems l))"
  shows "\<exists>p. lget l q = Some p"
proof -
  from assms(2,3) have "elems l ! nat q \<in> set (elems l)" by simp
  with assms show ?thesis by (cases "elems l ! nat q") (auto simp: numbers_only_def lget_def)
qed

section \<open>A gate that names one qubit twice\<close>

lemma not_self_connected:
  assumes "built_topology hw" shows "\<not> isConnected hw p p"
  using built_topology_loop_free[OF assms]
  by (simp add: isConnected_def isConnected_g_def loop_free_def)

lemma self_distance:
  assumes "built_topology hw"
  shows "fst (distance hw (Some p) (Some p)) = Fin 0"
  by (simp add: built_distance[OF assms] hops_self)

lemma self_path: "getShortestPath hw p p = [p]"
  by (simp add: getShortestPath_def bfs_path.simps)

lemma greedy_same_operand:
  assumes "built_topology (st_hw s)" and "qubits gt = [q, q]" and "lget (st_layout s) q = Some p"
  shows "greedy_gate gt s = Some (push_native gt (add_penalty q q s))
         \<and> st_distancePenalty (push_native gt (add_penalty q q s))
             = num_add (st_distancePenalty s) (Fin (- 1))
         \<and> st_insertedSwaps (push_native gt (add_penalty q q s)) = st_insertedSwaps s"
proof -
  have "greedy_loop q q s = Some s"
    by (subst greedy_loop.simps) (simp add: not_self_connected[OF assms(1)] self_path)
  then show ?thesis
    using assms by (simp add: greedy_gate_def self_distance)
qed

lemma genetic_same_operand:
  assumes "built_topology (st_hw s)" and "qubits gt = [q, q]" and "numbers_only (st_layout s)"
    and "0 \<le> q" and "q < int (length (elems (st_layout s)))"
    and "genetic_gate chrom gt s = Inr s'"
  shows "st_distancePenalty s' = num_add (st_distancePenalty s) (Fin (- 1)) \<and> \<not> resolved gt s'"
proof -
  from assms(2,6) obtain s1 where l: "genetic_loop chrom q q s = Inr s1"
    and s': "s' = push_native gt (add_penalty q q s1)"
    by (auto simp: genetic_gate_def split: sum.splits)
  from genetic_loop_hw[OF l] have hw: "st_hw s1 = st_hw s" "st_distancePenalty s1 = st_distancePenalty s"
    by simp_all
  from genetic_loop_numbers[OF l assms(3)] assms(4,5)
  obtain p where p: "lget (st_layout s1) q = Some p"
    using numbers_only_lget[of "st_layout s1" q] by auto
  show ?thesis
    using assms(1,2) not_self_connected[OF assms(1)]
    by (simp add: s' hw p self_distance resolved_def)
qed

lemma cx00_results:
  "map_option distancePenalty (GreedyMapper_map cx00 chain2) = Some (Fin (- 1))"
  "map_sum id distancePenalty (applyChromosome (Some [Some (0, 1)]) cx00 chain2) = Inr (Fin (- 1))"
  by code_simp+

text \<open>
  Claim C10. Let a gate name the same logical qubit \<open>q\<close> twice, in a run state whose
  topology the constructor built. If \<open>layout[q]\<close> is a physical qubit, the greedy mapper
  inserts no swap (the qubit is not connected to itself and the shortest path from it to
  itself has one vertex) and adds \<open>distance(p, p) - 1 = -1\<close> to the penalty. If \<open>q\<close> is in
  range and the layout holds physical qubits only, the genetic replay, whenever it returns,
  has added \<open>-1\<close> as well. On the two-qubit chain with the one gate \<open>cx(0, 0)\<close> both
  return the penalty \<open>-1\<close>.
\<close>

theorem same_operand_gate_adds_minus_one:
  "built_topology (st_hw s) \<and> built_topology (st_hw g) \<and> qubits gt = [q, q] \<longrightarrow>
     (lget (st_layout s) q = Some p \<longrightarrow>
        greedy_gate gt s = Some (push_native gt (add_penalty q q s))
        \<and> st_distancePenalty (push_native gt (add_penalty q q s))
            = num_add (st_distancePenalty s) (Fin (- 1))
        \<and> st_insertedSwaps (push_native gt (add_penalty q q s)) = st_insertedSwaps s)
     \<and> (numbers_only (st_layout g) \<and> 0 \<le> q \<and> q < int (length (elems (st_layout g)))
         \<and> genetic_gate chrom gt g = Inr g' \<longrightarrow>
        st_distancePenalty g' = num_add (st_distancePenalty g) (Fin (- 1)))
     \<and> map_option distancePenalty (GreedyMapper_map cx00 chain2) = Some (Fin (- 1))
     \<and> map_sum id distancePenalty (applyChromosome (Some [Some (0, 1)]) cx00 chain2)
         = Inr (Fin (- 1))"
  using greedy_same_operand[of s gt q p] genetic_same_operand[of g gt q chrom g'] cx00_results
  by blast

lemma cx00_gate_runs:
  "case genetic_gate (Some [Some (0, 1)]) \<lparr>gtype = ''cx'', qubits = [0, 0]\<rparr> (init_gstate cx00 chain2) of
     Inl e \<Rightarrow> False | Inr g' \<Rightarrow> st_insertedSwaps g' = 1"
  by code_simp

theorem same_operand_gate_adds_minus_one_witness:
  "built_topology (st_hw (init_state cx00 chain2)) \<and> built_topology (st_hw (init_gstate cx00 chain2))
   \<and> qubits \<lparr>gtype = ''cx'', qubits = [0, 0]\<rparr> = [0, 0]
   \<and> lget (st_layout (init_state cx00 chain2)) 0 = Some 0
   \<and> numbers_only (st_layout (init_gstate cx00 chain2))
   \<and> (0::int) < int (length (elems (st_layout (init_gstate cx00 chain2))))
   \<and> (\<exists>s'. greedy_gate \<lparr>gtype = ''cx'', qubits = [0, 0]\<rparr> (init_state cx00 chain2) = Some s'
         \<and> st_distancePenalty s' = Fin (- 1) \<and> st_insertedSwaps s' = 0)
   \<and> (\<exists>g'. genetic_gate (Some [Some (0, 1)]) \<lparr>gtype = ''cx'', qubits = [0, 0]\<rparr>
                (init_gstate cx00 chain2) = Inr g'
         \<and> st_distancePenalty g' = Fin (- 1) \<and> st_insertedSwaps g' = 1)"
proof -
  let ?gt = "\<lparr>gtype = ''cx'', qubits = [0, 0]\<rparr>"
  let ?s = "init_state cx00 chain2" and ?g = "init_gstate cx00 chain2"
  have b: "built_topology (st_hw ?s)" "built_topology (st_hw ?g)"
    by (simp_all add: init_state_def init_gstate_def chain2_def built_topology_new)
  have l: "lget (st_layout ?s) 0 = Some 0" "numbers_only (st_layout ?g)"
    "(0::int) < int (length (elems (st_layout ?g)))"
    "st_distancePenalty ?s = Fin 0" "st_distancePenalty ?g = Fin 0" "st_insertedSwaps ?s = 0"
    by (simp_all add: init_state_def init_gstate_def identity_layout_def cx00_def lget_def
        numbers_only_def upt_rec)
  from cx00_gate_runs obtain g' where
    g': "genetic_gate (Some [Some (0, 1)]) ?gt ?g = Inr g'" "st_insertedSwaps g' = 1"
    by (auto split: sum.splits)
  from same_operand_gate_adds_minus_one[of ?s ?g ?gt 0 0 "Some [Some (0, 1)]" g'] b l g'
  show ?thesis by simp
qed

section \<open>A swap with an unoccupied physical qubit\<close>

text \<open>
  The replay of the genetic optimizer on the same circuit and device, with the genes
  \<open>(3, 4)\<close>, \<open>(4, 5)\<close>, \<open>(1, 4)\<close>: its guard \<open>logQ1 !== -1 && logQ2 !== -1\<close> skips the gene
  \<open>(4, 5)\<close>, whose physical qubit 5 holds no logical qubit, and the layout stays a
  permutation of \<open>0..4\<close>.
\<close>

lemma genetic_replay_skips_unoccupied_swap:
  "applyChromosome (Some [Some (3, 4), Some (4, 5), Some (1, 4)]) cx32 grid3x3 = Inr
     \<lparr>steps =
        [Swap [Some 3, Some 4] [3, 4] [Some 0, Some 1, Some 2, Some 4, Some 3] True 0,
         Swap [Some 1, Some 4] [1, 3] [Some 0, Some 4, Some 2, Some 1, Some 3] True 1,
         Native ''cx'' [Some 1, Some 2] [3, 2] [Some 0, Some 4, Some 2, Some 1, Some 3] False 2],
      insertedSwaps = 2, depth = 3, distancePenalty = Fin 0,
      finalLayout = [Some 0, Some 4, Some 2, Some 1, Some 3]\<rparr>"
  by code_simp

text \<open>
  Claim C3 at the circuit \<open>cx32\<close> on the 3 x 3 grid, greedy mapper. The first swap, on the
  edge \<open>3 - 4\<close>, exchanges two layout entries. The shortest path from the physical qubit 4
  to 2 then starts with the edge \<open>4 - 5\<close>, and no logical qubit sits on 5: \<open>indexOf\<close> answers
  \<open>-1\<close>, the exchange writes \<open>undefined\<close> into the layout and 4 into the property \<open>-1\<close>.
  The returned \<open>finalLayout\<close> is \<open>[0, 1, 2, undefined, 3]\<close>, which is not a permutation of
  \<open>0..4\<close>, and the second swap step did not transpose two entries.
\<close>

theorem greedy_final_layout_not_a_permutation:
  "GreedyMapper_map cx32 grid3x3 = Some
     \<lparr>steps =
        [Swap [Some 3, Some 4] [3, 4] [Some 0, Some 1, Some 2, Some 4, Some 3] True 0,
         Swap [Some 4, Some 5] [3, - 1] [Some 0, Some 1, Some 2, None, Some 3] True 1,
         Native ''cx'' [None, Some 2] [3, 2] [Some 0, Some 1, Some 2, None, Some 3] False 2],
      insertedSwaps = 2, depth = 3, distancePenalty = Infinity,
      finalLayout = [Some 0, Some 1, Some 2, None, Some 3]\<rparr>"
  by code_simp

section \<open>The look-ahead loop on a gate that names one qubit twice\<close>

lemma lnn2: "lnn_graph 2 = [(0, [1]), (1, [0])]"
proof -
  have "[0..<nat 2] = [0, 1]" by (simp add: upt_rec)
  then show ?thesis by (simp add: lnn_graph_def)
qed

lemma upcoming_cx00:
  "getUpcomingInteractions F cx00 0 3 = [([0, 0], 0, f_weight F 0)]"
proof -
  have "[0..<Suc 0] = [0]" by simp
  then show ?thesis by (simp add: getUpcomingInteractions_def cx00_def)
qed

lemma score_one_self_gate:
  assumes "built_topology hw" and "lget l 0 = Some p"
  shows "fst (score_layout F [([0, 0], 0, w)] l hw) = f_minus F (f_zero F) (f_times F (Fin 0) w)"
  using self_distance[OF assms(1), of p] assms(2)
  by (simp add: score_layout_def case_prod_beta Let_def)

lemma swapped_pair_lget:
  assumes "elems l = [Some 0, Some 1] \<or> elems l = [Some 1, Some 0]"
  shows "\<exists>p. lget (swap_entries \<lparr>elems = elems l, minus1 = None\<rparr>
                  (indexOf (elems l) (Some 0)) (indexOf (elems l) (Some 1))) 0 = Some p"
  using assms by (auto simp: swap_entries_def lget_def lset_def Let_def)

lemma findBestSwap_spinning:
  assumes pos: "f_greater F (f_minus F (f_zero F) (f_times F (Fin 0) (f_weight F 0))) (f_neg_infinity F)"
    and sp: "spinning s"
  shows "fst (findBestSwap F cx00 3 (st_layout s) 0 (st_hw s)) = Some (0, 1)"
proof -
  from sp have b: "built_topology (st_hw s)" and g: "graph (st_hw s) = [(0, [1]), (1, [0])]"
    and l: "elems (st_layout s) = [Some 0, Some 1] \<or> elems (st_layout s) = [Some 1, Some 0]"
    by (simp_all add: spinning_def same_built_def lnn2)
  from swapped_pair_lget[OF l] obtain p where
    p: "lget (swap_entries \<lparr>elems = elems (st_layout s), minus1 = None\<rparr>
              (indexOf (elems (st_layout s)) (Some 0)) (indexOf (elems (st_layout s)) (Some 1))) 0 = Some p"
    by blast
  have t: "fst (try_edge F [([0, 0], 0, f_weight F 0)] (st_layout s) 0 1 (None, f_neg_infinity F, st_hw s))
           = Some (0, 1)"
    using score_one_self_gate[OF b p, of F "f_weight F 0"] pos
    by (simp add: try_edge_def Let_def case_prod_beta)
  have skip: "try_edge F up (st_layout s) (Suc 0) 0 acc = acc" for up acc
    by (cases acc) (simp add: try_edge_def)
  from t have t': "fst (try_edge F [([0, 0], 0, f_weight F 0)] (st_layout s) 0 (Suc 0)
                          (None, f_neg_infinity F, st_hw s)) = Some (0, Suc 0)"
    by simp
  show ?thesis
    by (simp add: findBestSwap_def upcoming_cx00 g Let_def case_prod_beta skip t')
qed

lemma push_swap_spinning:
  assumes "spinning s"
  shows "spinning (push_swap (Some 0) (Some 1) s)"
  using assms
  by (auto simp: spinning_def push_swap_def swap_entries_def lget_def lset_def Let_def)

lemma spinning_not_resolved:
  assumes "spinning s"
  shows "\<not> isConnected (st_hw s) (lget (st_layout s) 0) (lget (st_layout s) 0)"
  using assms by (intro not_self_connected) (simp add: spinning_def same_built_def)

lemma lookahead_loop_spins:
  assumes pos: "f_greater F (f_minus F (f_zero F) (f_times F (Fin 0) (f_weight F 0))) (f_neg_infinity F)"
    and sp: "spinning s"
  shows "lookahead_loop F cx00 3 0 0 0 s = None"
proof (rule ccontr)
  assume "lookahead_loop F cx00 3 0 0 0 s \<noteq> None"
  then obtain y where run: "lookahead_loop F cx00 3 0 0 0 s = Some y" by auto
  have "\<not> (F' = F \<and> circ = cx00 \<and> la = 3 \<and> gi = 0 \<and> c = 0 \<and> t = 0 \<and> spinning s)"
    if "lookahead_loop F' circ la gi c t s = Some y" for F' circ la gi c t s y
  proof (rule lookahead_loop.raw_induct[where P = "\<lambda>F' circ la gi c t s y.
            \<not> (F' = F \<and> circ = cx00 \<and> la = 3 \<and> gi = 0 \<and> c = 0 \<and> t = 0 \<and> spinning s)", OF _ that],
         goal_cases)
    case (1 loop F' circ la gi c t s y)
    show ?case
    proof
      assume a: "F' = F \<and> circ = cx00 \<and> la = 3 \<and> gi = 0 \<and> c = 0 \<and> t = 0 \<and> spinning s"
      then have sp: "spinning s" by simp
      obtain bs h where fb: "findBestSwap F cx00 3 (st_layout s) 0 (st_hw s) = (bs, h)"
        by (cases "findBestSwap F cx00 3 (st_layout s) 0 (st_hw s)")
      from findBestSwap_spinning[OF pos sp] fb have bs: "bs = Some (0, 1)" by simp
      from sp have sb: "same_built (lnn_graph 2) (st_hw s)" by (simp add: spinning_def)
      from findBestSwap_built[OF sb, of F cx00 3 "st_layout s" 0] fb
      have "same_built (lnn_graph 2) h" by simp
      with sp have "spinning (s\<lparr>st_hw := h\<rparr>)" by (simp add: spinning_def)
      then have next_sp: "spinning (push_swap (Some 0) (Some 1) (s\<lparr>st_hw := h\<rparr>))"
        by (rule push_swap_spinning)
      from 1(2) a spinning_not_resolved[OF sp] fb bs
      have "loop F cx00 3 0 0 0 (push_swap (Some 0) (Some 1) (s\<lparr>st_hw := h\<rparr>)) = Some y"
        by simp
      from 1(1)[OF this] next_sp show False by simp
    qed
  qed
  from this[OF run] sp show False by simp
qed

lemma init_spinning: "spinning (init_state cx00 chain2)"
proof -
  have "[0..<nat 2] = [0, 1]" by (simp add: upt_rec)
  then show ?thesis
    using built_topology_new[of "''lnn''" "\<lparr>p_qubits = Some 2, p_rows = None, p_cols = None\<rparr>"]
    by (simp add: spinning_def same_built_def init_state_def identity_layout_def cx00_def chain2_def)
       (simp add: new_HardwareTopology_def buildGraph_def js_or_def)
qed

text \<open>
  Claim C5 at the circuit \<open>cx00\<close> on the two-qubit chain, look-ahead mapper with the window 3.
  The images of the gate's two operands are the same physical qubit, which is never
  connected to itself, and the device has the edge \<open>0 - 1\<close>, whose score
  \<open>0 - 0 * 1\<close> is greater than \<open>-Infinity\<close>: \<open>findBestSwap\<close> returns that edge every time,
  the exhaustion condition never holds, and the loop inserts swaps forever. \<open>map()\<close> does
  not return.
\<close>

theorem lookahead_same_operand_gate_never_returns:
  assumes "f_greater F (f_minus F (f_zero F) (f_times F (Fin 0) (f_weight F 0))) (f_neg_infinity F)"
  shows "LookAheadMapper_map F cx00 chain2 3 = None"
proof -
  have "lookahead_gate F cx00 3 (\<lparr>gtype = ''cx'', qubits = [0, 0]\<rparr>, 0) (init_state cx00 chain2) = None"
    by (simp add: lookahead_gate_def lookahead_loop_spins[OF assms init_spinning])
  then show ?thesis
    by (simp add: LookAheadMapper_map_def cx00_def)
qed

theorem lookahead_same_operand_gate_never_returns_witness:
  "f_greater exact_ops (f_minus exact_ops (f_zero exact_ops)
       (f_times exact_ops (Fin 0) (f_weight exact_ops 0))) (f_neg_infinity exact_ops)
   \<and> LookAheadMapper_map exact_ops cx00 chain2 3 = None
   \<and> (\<exists>r. GreedyMapper_map cx00 chain2 = Some r)
   \<and> (\<exists>r. applyChromosome (Some [Some (0, 1)]) cx00 chain2 = Inr r)"
proof -
  have pos: "f_greater exact_ops (f_minus exact_ops (f_zero exact_ops)
       (f_times exact_ops (Fin 0) (f_weight exact_ops 0))) (f_neg_infinity exact_ops)"
    by (simp add: exact_ops_def)
  have "GreedyMapper_map cx00 chain2 \<noteq> None"
    "case applyChromosome (Some [Some (0, 1)]) cx00 chain2 of Inl e \<Rightarrow> False | Inr r \<Rightarrow> True"
    by code_simp+
  then have "\<exists>r. GreedyMapper_map cx00 chain2 = Some r"
    "\<exists>r. applyChromosome (Some [Some (0, 1)]) cx00 chain2 = Inr r"
    by (auto split: sum.splits)
  with pos lookahead_same_operand_gate_never_returns[OF pos] show ?thesis by simp
qed

section \<open>The three shapes are connected\<close>

lemma reachable_refl: "reachable g a a"
  unfolding reachable_def by (rule exI[of _ "[]"]) simp

lemma reachable_trans: "reachable g a b \<Longrightarrow> reachable g b c \<Longrightarrow> reachable g a c"
  unfolding reachable_def using is_walk_append by blast

lemma reachable_edge: "b \<in> set (adj g a) \<Longrightarrow> reachable g a b"
  unfolding reachable_def by (rule exI[of _ "[b]"]) simp

lemma reachable_sym: "symmetric_graph g \<Longrightarrow> reachable g a b \<Longrightarrow> reachable g b a"
  unfolding reachable_def using is_walk_rev by blast

text \<open>A device is connected as soon as every qubit reaches qubit 0.\<close>

lemma connected_via_zero:
  assumes "symmetric_graph g" and "map fst g = [0..<length g]"
    and "\<And>a. a < length g \<Longrightarrow> reachable g (Some a) (Some 0)"
  shows "connected_device g"
  unfolding connected_device_def
  using assms reachable_trans[OF _ reachable_sym[OF assms(1)]] by blast

lemma keys_lnn: "map fst (lnn_graph n) = [0..<length (lnn_graph n)]"
  by (simp add: lnn_graph_def comp_def)

lemma keys_star: "map fst (star_graph n) = [0..<length (star_graph n)]"
proof -
  have "map fst (star_graph n) = 0 # [1..<nat n]" by (simp add: star_graph_def comp_def)
  also have "\<dots> = [0..<length (star_graph n)]"
    by (cases "nat n") (simp_all add: star_graph_def upt_rec[of 0])
  finally show ?thesis .
qed

lemma keys_grid: "map fst (grid_graph R C) = [0..<length (grid_graph R C)]"
  by (simp add: grid_graph_tabulate comp_def)

lemma connected_lnn: "connected_device (lnn_graph n)"
proof (rule connected_via_zero[OF symmetric_lnn keys_lnn])
  fix a assume "a < length (lnn_graph n)"
  then have "a < nat n" by (simp add: lnn_graph_def)
  then show "reachable (lnn_graph n) (Some a) (Some 0)"
  proof (induction a)
    case 0
    show ?case by (rule reachable_refl)
  next
    case (Suc a)
    then have "Some a \<in> set (adj (lnn_graph n) (Some (Suc a)))" by (simp add: adj_lnn)
    from reachable_trans[OF reachable_edge[OF this]] Suc show ?case by simp
  qed
qed

lemma connected_star: "connected_device (star_graph n)"
proof (rule connected_via_zero[OF symmetric_star keys_star])
  fix a assume "a < length (star_graph n)"
  then have "a < Suc (nat n - 1)" by (simp add: star_graph_def)
  then have a: "a = 0 \<or> a < nat n" by arith
  show "reachable (star_graph n) (Some a) (Some 0)"
  proof (cases "a = 0")
    case True
    then show ?thesis by (simp add: reachable_refl)
  next
    case False
    with a have "Some 0 \<in> set (adj (star_graph n) (Some a))" by (simp add: adj_star)
    then show ?thesis by (rule reachable_edge)
  qed
qed

lemma connected_grid: "connected_device (grid_graph R C)"
proof (rule connected_via_zero[OF symmetric_grid keys_grid])
  fix a assume "a < length (grid_graph R C)"
  then have "a < nat R * nat C" by (simp add: grid_graph_tabulate)
  from grid_coords[OF this] obtain r c where a: "a = r * nat C + c" and r: "r < nat R" and c: "c < nat C"
    by blast
  have row: "reachable (grid_graph R C) (Some (r * nat C + c)) (Some (r * nat C))" if "c < nat C" for c
    using that
  proof (induction c)
    case 0
    show ?case by (simp add: reachable_refl)
  next
    case (Suc c)
    then have "Some (r * nat C + c) \<in> set (adj (grid_graph R C) (Some (r * nat C + Suc c)))"
      using adj_grid_cell[OF r, of "Suc c" C] by simp
    from reachable_trans[OF reachable_edge[OF this]] Suc show ?case by simp
  qed
  have col: "reachable (grid_graph R C) (Some (r * nat C)) (Some 0)" if "r < nat R" for r
    using that
  proof (induction r)
    case 0
    show ?case by (simp add: reachable_refl)
  next
    case (Suc r)
    from c have "0 < nat C" by simp
    from adj_grid_cell[OF Suc.prems this]
    have "Some (r * nat C) \<in> set (adj (grid_graph R C) (Some (Suc r * nat C)))" by simp
    from reachable_trans[OF reachable_edge[OF this]] Suc show ?case by simp
  qed
  from reachable_trans[OF row[OF c] col[OF r]] show "reachable (grid_graph R C) (Some a) (Some 0)"
    by (simp add: a)
qed

lemma connected_buildGraph:
  assumes "ty = ''lnn'' \<or> ty = ''grid2d'' \<or> ty = ''star''"
  shows "connected_device (buildGraph ty ps)"
  using assms by (auto simp: buildGraph_def connected_lnn connected_grid connected_star)

lemma valid_input_built: "valid_input c hw \<Longrightarrow> built_topology hw"
  by (auto simp: valid_input_def built_topology_def)

lemma valid_input_connected: "valid_input c hw \<Longrightarrow> connected_device (graph hw)"
  by (auto simp: valid_input_def connected_buildGraph)

lemma connected_distance:
  assumes "built_topology hw" and "connected_device (graph hw)"
    and "a < length (graph hw)" and "b < length (graph hw)"
  shows "\<exists>k. fst (distance hw (Some a) (Some b)) = Fin k"
proof -
  from assms(2-4) have "reachable (graph hw) (Some a) (Some b)" by (simp add: connected_device_def)
  with hops_Infinity_iff[of "graph hw" "Some a" "Some b"] built_distance[OF assms(1), of a b]
  show ?thesis by (cases "hops (graph hw) (Some a) (Some b)") auto
qed

section \<open>A replay on a valid input\<close>

lemma replay_ok_layout:
  assumes "replay_ok c g s" and "0 \<le> q" and "q < nQubits c"
  shows "\<exists>p. lget (st_layout s) q = Some p \<and> p < nat (nQubits c)"
proof -
  from assms(1) have m: "mset (elems (st_layout s)) = mset (map Some [0..<nat (nQubits c)])"
    by (simp add: replay_ok_def)
  from mset_eq_length[OF m] have len: "length (elems (st_layout s)) = nat (nQubits c)" by simp
  from mset_eq_setD[OF m] have set: "set (elems (st_layout s)) = Some ` {0..<nat (nQubits c)}" by simp
  from assms(2,3) len have "elems (st_layout s) ! nat q \<in> set (elems (st_layout s))" by simp
  with set obtain p where "elems (st_layout s) ! nat q = Some p" "p < nat (nQubits c)" by auto
  with assms(2,3) len show ?thesis by (simp add: lget_def)
qed

lemma replay_ok_push_swap:
  assumes "replay_ok c g s"
    and "indexOf (elems (st_layout s)) (Some q1) \<noteq> - 1"
    and "indexOf (elems (st_layout s)) (Some q2) \<noteq> - 1"
  shows "replay_ok c g (push_swap (Some q1) (Some q2) s)"
proof -
  let ?xs = "elems (st_layout s)"
  from push_swap_found_layout[OF assms(2,3)] obtain i j where
    ij: "i < length ?xs" "j < length ?xs" "?xs ! i = Some q1" "?xs ! j = Some q2"
    and l: "st_layout (push_swap (Some q1) (Some q2) s)
              = (st_layout s)\<lparr>elems := ?xs[i := Some q2, j := Some q1]\<rparr>"
    by blast
  have "mset (?xs[i := ?xs ! j, j := ?xs ! i]) = mset ?xs"
    by (rule mset_swap[OF ij(2,1)])
  with ij have "mset (?xs[i := Some q2, j := Some q1]) = mset ?xs" by simp
  with assms(1) l show ?thesis
    by (simp add: replay_ok_def) (simp add: push_swap_def Let_def)
qed

lemma replay_ok_add_penalty:
  assumes ok: "replay_ok c g s" and conn: "connected_device g" and fits: "nat (nQubits c) \<le> length g"
    and q: "0 \<le> q1" "q1 < nQubits c" "0 \<le> q2" "q2 < nQubits c"
  shows "replay_ok c g (add_penalty q1 q2 s)"
proof -
  from ok have b: "built_topology (st_hw s)" and g: "graph (st_hw s) = g"
    and fin: "st_distancePenalty s \<noteq> Infinity"
    by (simp_all add: replay_ok_def same_built_def)
  from replay_ok_layout[OF ok q(1,2)] obtain a where a: "lget (st_layout s) q1 = Some a" "a < length g"
    using fits by auto
  from replay_ok_layout[OF ok q(3,4)] obtain b' where b': "lget (st_layout s) q2 = Some b'" "b' < length g"
    using fits by auto
  from connected_distance[OF b, of a b'] conn g a(2) b'(2)
  obtain k where k: "fst (distance (st_hw s) (Some a) (Some b')) = Fin k" by auto
  from fin obtain p where p: "st_distancePenalty s = Fin p" by (cases "st_distancePenalty s") auto
  show ?thesis
    using ok same_built_distance[of g "st_hw s" "Some a" "Some b'"]
    by (simp add: replay_ok_def a b' k p)
qed

lemma replay_ok_push_native: "replay_ok c g s \<Longrightarrow> replay_ok c g (push_native gt s)"
  by (simp add: replay_ok_def)

lemma replay_ok_swapIndex: "replay_ok c g s \<Longrightarrow> replay_ok c g (s\<lparr>st_swapIndex := k\<rparr>)"
  by (simp add: replay_ok_def)

lemma genetic_loop_returns:
  assumes "defined_genes genes"
  shows "\<exists>s'. genetic_loop (Some genes) c t s = Inr s'"
  using assms
proof (induction "Some genes" c t s rule: genetic_loop.induct)
  case (1 c t s)
  show ?case
  proof (cases "isConnected (st_hw s) (lget (st_layout s) c) (lget (st_layout s) t)
                \<or> \<not> st_swapIndex s < length genes")
    case True
    then show ?thesis by (auto simp: genetic_loop.simps[of "Some genes" c t s])
  next
    case False
    then have nc: "\<not> isConnected (st_hw s) (lget (st_layout s) c) (lget (st_layout s) t)"
      and lt: "st_swapIndex s < length genes" by simp_all
    from lt "1.prems" obtain e where e: "genes ! st_swapIndex s = Some e"
      by (cases "genes ! st_swapIndex s") (auto simp: defined_genes_def dest: nth_mem)
    obtain q1 q2 where q: "e = (q1, q2)" by (cases e)
    from "1.hyps"[OF nc refl _ e q[symmetric] "1.prems"] lt
    show ?thesis
      by (subst genetic_loop.simps) (simp add: nc lt e q)
  qed
qed

lemma genetic_gate_returns:
  assumes ok: "replay_ok c g s" and conn: "connected_device g" and fits: "nat (nQubits c) \<le> length g"
    and genes: "defined_genes genes"
    and ops: "\<forall>q \<in> set (qubits gt). 0 \<le> q \<and> q < nQubits c"
  shows "\<exists>s'. genetic_gate (Some genes) gt s = Inr s' \<and> replay_ok c g s'"
proof (cases "length (qubits gt) = 2")
  case False
  then show ?thesis using ok by (simp add: genetic_gate_def replay_ok_push_native)
next
  case True
  from genetic_loop_returns[OF genes] obtain s1 where
    l: "genetic_loop (Some genes) (qubits gt ! 0) (qubits gt ! 1) s = Inr s1" by blast
  have ok1: "replay_ok c g s1"
    by (rule genetic_loop_invariant[where P = "replay_ok c g", OF l ok])
       (simp_all add: replay_ok_push_swap replay_ok_swapIndex)
  from True ops have "0 \<le> qubits gt ! 0 \<and> qubits gt ! 0 < nQubits c"
    "0 \<le> qubits gt ! 1 \<and> qubits gt ! 1 < nQubits c"
    by (simp_all add: nth_mem)
  with replay_ok_add_penalty[OF ok1 conn fits]
  have "replay_ok c g (add_penalty (qubits gt ! 0) (qubits gt ! 1) s1)" by simp
  then show ?thesis using True l by (simp add: genetic_gate_def replay_ok_push_native)
qed

lemma for_each_e_returns:
  assumes "P s" and "\<And>x a. x \<in> set xs \<Longrightarrow> P a \<Longrightarrow> \<exists>b. f x a = Inr b \<and> P b"
  shows "\<exists>s'. for_each_e f xs s = Inr s' \<and> P s'"
  using assms
proof (induction xs arbitrary: s)
  case Nil
  then show ?case by simp
next
  case (Cons x xs)
  from Cons.prems(2)[OF _ Cons.prems(1), of x] obtain b where b: "f x s = Inr b" "P b" by auto
  from Cons.IH[OF b(2)] Cons.prems(2) obtain s' where "for_each_e f xs b = Inr s'" "P s'"
    by (metis list.set_intros(2))
  with b show ?case by simp
qed

lemma init_gstate_ok:
  assumes "same_built g hw"
  shows "replay_ok c g (init_gstate c hw)"
  using assms by (simp add: replay_ok_def init_gstate_def identity_layout_def)

lemma replay_returns:
  assumes hw: "same_built g hw" and conn: "connected_device g" and fits: "nat (nQubits c) \<le> length g"
    and genes: "defined_genes genes" and c: "valid_circuit c"
  shows "\<exists>s. replay (Some genes) c hw = Inr s \<and> replay_ok c g s"
  unfolding replay_def
proof (rule for_each_e_returns[where P = "replay_ok c g", OF init_gstate_ok[OF hw]])
  fix gt and a :: gstate assume "gt \<in> set (gates c)" and "replay_ok c g a"
  with c show "\<exists>b. genetic_gate (Some genes) gt a = Inr b \<and> replay_ok c g b"
    by (intro genetic_gate_returns[OF _ conn fits genes]) (auto simp: valid_circuit_def)
qed

section \<open>The genetic search on a valid input\<close>

lemma random_index_range:
  assumes "draws_in_range D rnd" and "0 < k"
  shows "0 \<le> random_index D rnd i k \<and> random_index D rnd i k < k"
  using assms by (simp add: draws_in_range_def random_index_def)

lemma js_slice0_subset: "set (js_slice0 xs k) \<subseteq> set xs"
  by (auto simp: js_slice0_def dest: in_set_takeD)

lemma js_slice_from_subset: "set (js_slice_from xs k) \<subseteq> set xs"
  by (auto simp: js_slice_from_def dest: in_set_dropD)

lemma random_gene_defined:
  assumes "draws_in_range D rnd" and "validSwaps \<noteq> []"
  shows "random_gene D rnd validSwaps i \<noteq> None"
  using random_index_range[OF assms(1), of "int (length validSwaps)" i] assms(2)
  by (simp add: random_gene_def js_nth_def)

lemma random_genes_defined:
  assumes "draws_in_range D rnd" and "validSwaps \<noteq> []"
  shows "defined_genes (fst (random_genes D rnd validSwaps n i))"
proof (induction n arbitrary: i)
  case 0
  show ?case by (simp add: defined_genes_def)
next
  case (Suc n)
  from random_gene_defined[OF assms, of i] have "None \<noteq> random_gene D rnd validSwaps i" by auto
  with Suc[of "Suc i"] show ?case by (simp add: defined_genes_def case_prod_beta)
qed

lemma initial_population_defined:
  assumes "draws_in_range D rnd" and "validSwaps \<noteq> []"
  shows "length (fst (initial_population D rnd cfg validSwaps n i)) = n
         \<and> (\<forall>ch \<in> set (fst (initial_population D rnd cfg validSwaps n i)). defined_genes ch)"
  using random_genes_defined[OF assms]
  by (induction n arbitrary: i) (auto simp: case_prod_beta Let_def)

lemma getValidSwaps_graph: "graph hw' = graph hw \<Longrightarrow> getValidSwaps hw' = getValidSwaps hw"
  by (simp add: getValidSwaps_def)

lemma evaluateFitness_returns:
  assumes hw: "same_built g hw" and conn: "connected_device g" and fits: "nat (nQubits c) \<le> length g"
    and genes: "defined_genes genes" and c: "valid_circuit c"
  shows "\<exists>f hw'. evaluateFitness genes c hw = Inr (f, hw') \<and> f \<noteq> NegInfinity \<and> same_built g hw'"
proof -
  from replay_returns[OF assms] obtain s where s: "replay (Some genes) c hw = Inr s" "replay_ok c g s"
    by blast
  from s(2) obtain p where "st_distancePenalty s = Fin p"
    by (cases "st_distancePenalty s") (auto simp: replay_ok_def)
  with s show ?thesis
    by (simp add: evaluateFitness_def fitness_of_def result_of_def replay_ok_def)
qed

lemma evaluate_population_returns:
  assumes conn: "connected_device g" and fits: "nat (nQubits c) \<le> length g" and c: "valid_circuit c"
    and "same_built g hw" and "cache_finite fc" and "\<forall>ch \<in> set pop. defined_genes ch"
  shows "\<exists>es fc' hw'. evaluate_population c pop fc hw = Inr (es, fc', hw')
           \<and> map fst es = pop \<and> (\<forall>e \<in> set es. snd e \<noteq> NegInfinity)
           \<and> cache_finite fc' \<and> same_built g hw'"
  using assms(4-)
proof (induction pop arbitrary: fc hw)
  case Nil
  then show ?case by simp
next
  case (Cons ch pop)
  from Cons.prems(3) have ch: "defined_genes ch" and rest: "\<forall>ch \<in> set pop. defined_genes ch"
    by simp_all
  from ch have key: "chromosomeKey ch = Inr (map the ch)"
    by (simp add: chromosomeKey_def defined_genes_def)
  show ?case
  proof (cases "fc (map the ch)")
    case (Some f)
    with Cons.prems(2) have f: "f \<noteq> NegInfinity" by (auto simp: cache_finite_def)
    from Cons.IH[OF Cons.prems(1,2) rest] obtain es fc' hw' where
      "evaluate_population c pop fc hw = Inr (es, fc', hw')" "map fst es = pop"
      "\<forall>e \<in> set es. snd e \<noteq> NegInfinity" "cache_finite fc'" "same_built g hw'"
      by blast
    with key Some f show ?thesis by simp
  next
    case None
    from evaluateFitness_returns[OF Cons.prems(1) conn fits ch c] obtain f hw1 where
      f: "evaluateFitness ch c hw = Inr (f, hw1)" "f \<noteq> NegInfinity" "same_built g hw1"
      by blast
    from Cons.prems(2) f(2) have "cache_finite (fc(map the ch \<mapsto> f))"
      by (simp add: cache_finite_def)
    from Cons.IH[OF f(3) this rest] obtain es fc' hw' where
      "evaluate_population c pop (fc(map the ch \<mapsto> f)) hw1 = Inr (es, fc', hw')"
      "map fst es = pop" "\<forall>e \<in> set es. snd e \<noteq> NegInfinity" "cache_finite fc'"
      "same_built g hw'"
      by blast
    with key None f show ?thesis by simp
  qed
qed

lemma mset_insert_desc: "mset (insert_desc x ys) = add_mset x (mset ys)"
  by (induction ys) auto

lemma mset_sort_desc: "mset (sort_desc xs) = mset xs"
  by (induction xs) (simp_all add: sort_desc_def mset_insert_desc)

lemma set_sort_desc: "set (sort_desc xs) = set xs"
  using mset_eq_setD[OF mset_sort_desc] .

lemma tournament_draw_entries:
  assumes "draws_in_range D rnd" and "evaluated \<noteq> []"
  shows "length (fst (tournament_draw D rnd evaluated n i)) = n
         \<and> (\<forall>e \<in> set (fst (tournament_draw D rnd evaluated n i)). \<exists>x \<in> set evaluated. e = Some x)"
proof (induction n arbitrary: i)
  case 0
  show ?case by simp
next
  case (Suc n)
  from random_index_range[OF assms(1), of "int (length evaluated)" i] assms(2)
  have r: "0 \<le> random_index D rnd i (int (length evaluated))"
    "nat (random_index D rnd i (int (length evaluated))) < length evaluated"
    by auto
  from nth_mem[OF r(2)] r
  have "\<exists>x \<in> set evaluated. js_nth evaluated (random_index D rnd i (int (length evaluated))) = Some x"
    by (simp add: js_nth_def)
  with Suc[of "Suc i"] show ?case by (auto simp: case_prod_beta)
qed

lemma tournamentSelect_returns:
  assumes "draws_in_range D rnd" and "evaluated \<noteq> []" and "1 \<le> tournamentSize cfg"
  shows "\<exists>ch i'. tournamentSelect D rnd cfg evaluated i = Inr (ch, i') \<and> ch \<in> fst ` set evaluated"
proof -
  let ?t = "fst (tournament_draw D rnd evaluated (nat (tournamentSize cfg)) i)"
  let ?d = "map the (filter (\<lambda>e. e \<noteq> None) ?t)"
  from tournament_draw_entries[OF assms(1,2), of "nat (tournamentSize cfg)" i]
  have len: "length ?t = nat (tournamentSize cfg)"
    and ent: "\<forall>e \<in> set ?t. \<exists>x \<in> set evaluated. e = Some x" by simp_all
  from len assms(3) have "?t \<noteq> []" by auto
  then obtain e where "e \<in> set ?t" by (cases ?t) auto
  with ent have "e \<in> set (filter (\<lambda>e. e \<noteq> None) ?t)" by auto
  then have "filter (\<lambda>e. e \<noteq> None) ?t \<noteq> []" by (metis empty_iff list.set(1))
  then have "?d \<noteq> []" by simp
  moreover from ent have sub: "set ?d \<subseteq> set evaluated" by auto
  ultimately obtain x xs where x: "sort_desc ?d = x # xs"
    using mset_sort_desc[of ?d] by (cases "sort_desc ?d") auto
  then have "x \<in> set (sort_desc ?d)" by simp
  with sub have "x \<in> set evaluated" by (auto simp: set_sort_desc)
  with x show ?thesis
    by (auto simp: tournamentSelect_def case_prod_beta Let_def)
qed

lemma crossover_defined:
  assumes "defined_genes p1" and "defined_genes p2"
  shows "defined_genes (fst (crossover D rnd p1 p2 i))"
  using assms js_slice0_subset[of p1] js_slice_from_subset[of p2]
  by (auto simp: crossover_def defined_genes_def Let_def)

lemma mutate_defined:
  assumes "draws_in_range D rnd" and "validSwaps \<noteq> []" and "defined_genes ch"
  shows "defined_genes (fst (mutate D rnd cfg validSwaps ch i))"
proof -
  have g: "None \<noteq> random_gene D rnd validSwaps j" for j
    using random_gene_defined[OF assms(1,2), of j] by auto
  have upd: "None \<notin> set (ch[k := random_gene D rnd validSwaps j])" for k j
    using assms(3) g[of j] set_update_subset_insert[of ch k "random_gene D rnd validSwaps j"]
    by (auto simp: defined_genes_def)
  show ?thesis
    using assms(3) g upd
    by (auto simp: mutate_def defined_genes_def Let_def dest: in_set_takeD in_set_dropD)
qed

declare fill_population.simps [simp del]

lemma fill_population_returns:
  assumes "draws_in_range D rnd" and "validSwaps \<noteq> []" and "evaluated \<noteq> []"
    and "\<forall>e \<in> set evaluated. defined_genes (fst e)" and "1 \<le> tournamentSize cfg"
    and "\<forall>ch \<in> set newPopulation. defined_genes ch"
  shows "\<exists>pop' i'. fill_population D rnd cfg validSwaps evaluated rate newPopulation i = Inr (pop', i')
           \<and> (\<forall>ch \<in> set pop'. defined_genes ch)
           \<and> populationSize cfg \<le> int (length pop') \<and> length newPopulation \<le> length pop'"
  using assms
proof (induction D rnd cfg validSwaps evaluated rate newPopulation i rule: fill_population.induct)
  case (1 D rnd cfg validSwaps evaluated rate newPopulation i)
  show ?case
  proof (cases "int (length newPopulation) < populationSize cfg")
    case False
    with "1.prems"(6) show ?thesis
      by (subst fill_population.simps) simp
  next
    case True
    from tournamentSelect_returns[OF "1.prems"(1,3,5), of i] obtain p1 i1 where
      t1: "tournamentSelect D rnd cfg evaluated i = Inr (p1, i1)" and p1: "p1 \<in> fst ` set evaluated"
      by blast
    from tournamentSelect_returns[OF "1.prems"(1,3,5), of i1] obtain p2 i2 where
      t2: "tournamentSelect D rnd cfg evaluated i1 = Inr (p2, i2)" and p2: "p2 \<in> fst ` set evaluated"
      by blast
    from p1 p2 "1.prems"(4) have d: "defined_genes p1" "defined_genes p2" by auto
    obtain child i3 where cr: "crossover D rnd p1 p2 i2 = (child, i3)"
      by (cases "crossover D rnd p1 p2 i2")
    from crossover_defined[OF d, of D rnd i2] cr have child: "defined_genes child" by simp
    obtain child' i4 where mu: "(if d_less D (rnd i3) rate then mutate D rnd cfg validSwaps child (Suc i3)
                                 else (child, Suc i3)) = (child', i4)"
      by (cases "if d_less D (rnd i3) rate then mutate D rnd cfg validSwaps child (Suc i3)
                 else (child, Suc i3)")
    from mutate_defined[OF "1.prems"(1,2) child, of cfg "Suc i3"] child mu
    have child': "defined_genes child'" by (auto split: if_splits)
    with "1.prems"(6) have all: "\<forall>ch \<in> set (newPopulation @ [child']). defined_genes ch" by simp
    have nn: "\<not> \<not> int (length newPopulation) < populationSize cfg" using True by simp
    from "1.IH"[OF nn t1 refl t2 refl cr[symmetric] mu[symmetric] "1.prems"(1-5) all]
    obtain pop' i' where
      r: "fill_population D rnd cfg validSwaps evaluated rate (newPopulation @ [child']) i4 = Inr (pop', i')"
         "\<forall>ch \<in> set pop'. defined_genes ch" "populationSize cfg \<le> int (length pop')"
         "length (newPopulation @ [child']) \<le> length pop'"
      by blast
    have "fill_population D rnd cfg validSwaps evaluated rate newPopulation i = Inr (pop', i')"
      by (subst fill_population.simps) (simp add: True t1 t2 cr mu r(1))
    with r show ?thesis by simp
  qed
qed

text \<open>The loop counter never decreases and never passes the cap.\<close>

lemma generations_loop_gen:
  "generations_loop D rnd cfg c st = Inr st'
   \<Longrightarrow> gen st \<le> gen st' \<and> gen st' \<le> max (gen st) (generations cfg)"
proof (induction "nat (generations cfg - gen st)" arbitrary: st)
  case 0
  then have "\<not> gen st < generations cfg" by simp
  then have "generations_loop D rnd cfg c st = Inr st" by (subst generations_loop.simps) simp
  with "0.prems" show ?case by simp
next
  case (Suc n)
  then have lt: "gen st < generations cfg" by simp
  note run = Suc.prems
  show ?case
  proof (cases "evaluate_population c (population st) (cache st) (hardware st)")
    case (Inl e)
    have "generations_loop D rnd cfg c st = Inl e"
      by (subst generations_loop.simps) (simp add: lt Inl)
    with run show ?thesis by simp
  next
    case (Inr r)
    obtain unsorted cache' hw' where r: "r = (unsorted, cache', hw')" by (cases r)
    show ?thesis
    proof (cases "sort_desc unsorted")
      case Nil
      have "generations_loop D rnd cfg c st = Inl TypeError"
        by (subst generations_loop.simps) (simp add: lt Inr r Nil)
      with run show ?thesis by simp
    next
      case (Cons e others)
      obtain best bf where e: "e = (best, bf)" by (cases e)
      let ?improved = "fitness_greater bf (bestEverFitness st)"
      let ?st1 = "st\<lparr>bestEver := (if ?improved then Some best else bestEver st),
                       bestEverFitness := (if ?improved then bf else bestEverFitness st),
                       plateauCounter := (if ?improved then 0 else plateauCounter st + 1),
                       cache := cache', hardware := hw'\<rparr>"
      show ?thesis
      proof (cases "plateauCounter ?st1 \<ge> plateauThreshold cfg")
        case True
        have "generations_loop D rnd cfg c st = Inr ?st1"
          using lt Inr r Cons e True by (subst generations_loop.simps) (simp add: Let_def)
        with run have "st' = ?st1" by simp
        then have "gen st' = gen st" by simp
        then show ?thesis by simp
      next
        case False
        let ?sorted = "(best, bf) # others"
        let ?elite = "map fst (js_slice0 ?sorted (d_floor_times D (eliteRatio cfg) (populationSize cfg)))"
        show ?thesis
        proof (cases "fill_population D rnd cfg (getValidSwaps hw') ?sorted (mutationRate st)
                        ?elite (calls st)")
          case (Inl err)
          have "generations_loop D rnd cfg c st = Inl err"
            using lt Inr r Cons e False Inl by (subst generations_loop.simps) (simp add: Let_def)
          with run show ?thesis by simp
        next
          case fp: (Inr np)
          obtain newPop i' where np: "np = (newPop, i')" by (cases np)
          let ?st2 = "?st1\<lparr>population := newPop,
                            mutationRate := d_max D (minMutationRate cfg)
                               (d_times D (mutationRate ?st1) (d_literal D (95 / 100))),
                            gen := gen ?st1 + 1, calls := i'\<rparr>"
          have "generations_loop D rnd cfg c st = generations_loop D rnd cfg c ?st2"
            using lt Inr r Cons e False fp np by (subst generations_loop.simps) (simp add: Let_def)
          with run have run2: "generations_loop D rnd cfg c ?st2 = Inr st'" by simp
          have g2: "gen ?st2 = gen st + 1" by simp
          with Suc(2) have "n = nat (generations cfg - gen ?st2)" by simp
          from Suc(1)[OF this run2] g2 lt show ?thesis by simp
        qed
      qed
    qed
  qed
qed

text \<open>One generation from a good state: the loop breaks on the plateau with a chromosome
  as \<open>bestEver\<close>, or it goes on from a good state whose \<open>bestEver\<close> is a chromosome.\<close>

lemma generation_step:
  assumes rnd: "draws_in_range D rnd" and conn: "connected_device g" and fits: "nat (nQubits c) \<le> length g"
    and c: "valid_circuit c" and vs: "\<forall>hw. same_built g hw \<longrightarrow> getValidSwaps hw \<noteq> []"
    and cfg: "1 \<le> populationSize cfg" "1 \<le> tournamentSize cfg"
    and ok: "search_ok g st" and lt: "gen st < generations cfg"
  shows "(\<exists>st' genes. generations_loop D rnd cfg c st = Inr st'
            \<and> bestEver st' = Some genes \<and> defined_genes genes \<and> same_built g (hardware st'))
         \<or> (\<exists>st'. generations_loop D rnd cfg c st = generations_loop D rnd cfg c st'
            \<and> gen st' = gen st + 1
            \<and> search_ok g st' \<and> (\<exists>genes. bestEver st' = Some genes \<and> defined_genes genes))"
proof -
  from ok have pop: "population st \<noteq> []" "\<forall>ch \<in> set (population st). defined_genes ch"
    and fc: "cache_finite (cache st)" and hw: "same_built g (hardware st)"
    and be: "bestEverFitness st = NegInfinity
             \<or> (\<exists>genes. bestEver st = Some genes \<and> defined_genes genes)"
    by (simp_all add: search_ok_def)
  from evaluate_population_returns[OF conn fits c hw fc pop(2)] obtain es fc' hw' where
    ev: "evaluate_population c (population st) (cache st) (hardware st) = Inr (es, fc', hw')"
    and es: "map fst es = population st" "\<forall>e \<in> set es. snd e \<noteq> NegInfinity"
    and fc': "cache_finite fc'" and hw': "same_built g hw'"
    by blast
  from es(1) pop(1) have "es \<noteq> []" by auto
  then obtain best bf others where srt: "sort_desc es = (best, bf) # others"
    using mset_sort_desc[of es] by (cases "sort_desc es") auto
  let ?sorted = "(best, bf) # others"
  have set_sorted: "set ?sorted = set es" using set_sort_desc[of es] srt by simp
  have sorted_defined: "\<forall>e \<in> set ?sorted. defined_genes (fst e)"
  proof
    fix e assume "e \<in> set ?sorted"
    with set_sorted have "fst e \<in> set (map fst es)" by auto
    with es(1) pop(2) show "defined_genes (fst e)" by simp
  qed
  then have best: "defined_genes best" by simp
  from set_sorted es(2) have bf: "bf \<noteq> NegInfinity" by force
  let ?improved = "fitness_greater bf (bestEverFitness st)"
  let ?st1 = "st\<lparr>bestEver := (if ?improved then Some best else bestEver st),
                   bestEverFitness := (if ?improved then bf else bestEverFitness st),
                   plateauCounter := (if ?improved then 0 else plateauCounter st + 1),
                   cache := fc', hardware := hw'\<rparr>"
  have "\<exists>genes. bestEver ?st1 = Some genes \<and> defined_genes genes"
  proof (cases ?improved)
    case True
    with best show ?thesis by simp
  next
    case False
    with bf have "bestEverFitness st \<noteq> NegInfinity"
      by (cases bf; cases "bestEverFitness st") auto
    with be False show ?thesis by simp
  qed
  then obtain genes where genes: "bestEver ?st1 = Some genes" "defined_genes genes" by blast
  show ?thesis
  proof (cases "plateauCounter ?st1 \<ge> plateauThreshold cfg")
    case True
    have "generations_loop D rnd cfg c st = Inr ?st1"
      using lt ev srt True by (subst generations_loop.simps) (simp add: Let_def)
    moreover have "same_built g (hardware ?st1)" using hw' by simp
    ultimately show ?thesis using genes by blast
  next
    case False
    let ?count = "d_floor_times D (eliteRatio cfg) (populationSize cfg)"
    let ?elite = "map fst (js_slice0 ?sorted ?count)"
    have elite: "\<forall>ch \<in> set ?elite. defined_genes ch"
    proof
      fix ch assume "ch \<in> set ?elite"
      then obtain e where "e \<in> set (js_slice0 ?sorted ?count)" "ch = fst e" by auto
      with js_slice0_subset[of ?sorted] sorted_defined show "defined_genes ch" by blast
    qed
    have ne: "?sorted \<noteq> []" by simp
    from fill_population_returns[OF rnd vs[rule_format, OF hw'] ne sorted_defined cfg(2) elite,
        of "mutationRate st" "calls st"]
    obtain newPop i' where
      fp: "fill_population D rnd cfg (getValidSwaps hw') ?sorted (mutationRate st) ?elite (calls st)
           = Inr (newPop, i')"
      and np: "\<forall>ch \<in> set newPop. defined_genes ch" "populationSize cfg \<le> int (length newPop)"
      by blast
    from np(2) cfg(1) have np_ne: "newPop \<noteq> []" by auto
    let ?st' = "?st1\<lparr>population := newPop,
                      mutationRate := d_max D (minMutationRate cfg)
                         (d_times D (mutationRate ?st1) (d_literal D (95 / 100))),
                      gen := gen ?st1 + 1, calls := i'\<rparr>"
    have "generations_loop D rnd cfg c st = generations_loop D rnd cfg c ?st'"
      using lt ev srt False fp by (subst generations_loop.simps) (simp add: Let_def)
    moreover have "search_ok g ?st'"
      using np np_ne fc' hw' genes by (simp add: search_ok_def)
    moreover have "\<exists>genes. bestEver ?st' = Some genes \<and> defined_genes genes"
      using genes by simp
    moreover have "gen ?st' = gen st + 1" by simp
    ultimately show ?thesis by blast
  qed
qed

lemma generations_loop_returns:
  assumes rnd: "draws_in_range D rnd" and conn: "connected_device g" and fits: "nat (nQubits c) \<le> length g"
    and c: "valid_circuit c" and vs: "\<forall>hw. same_built g hw \<longrightarrow> getValidSwaps hw \<noteq> []"
    and cfg: "1 \<le> populationSize cfg" "1 \<le> tournamentSize cfg"
    and ok: "search_ok g st"
    and start: "gen st < generations cfg \<or> (\<exists>genes. bestEver st = Some genes \<and> defined_genes genes)"
  shows "\<exists>st' genes. generations_loop D rnd cfg c st = Inr st'
           \<and> bestEver st' = Some genes \<and> defined_genes genes \<and> same_built g (hardware st')"
  using ok start
proof (induction "nat (generations cfg - gen st)" arbitrary: st)
  case 0
  then have ge: "\<not> gen st < generations cfg" by simp
  then have "generations_loop D rnd cfg c st = Inr st" by (subst generations_loop.simps) simp
  with 0 ge show ?case by (auto simp: search_ok_def)
next
  case (Suc n)
  then have lt: "gen st < generations cfg" by simp
  from generation_step[OF rnd conn fits c vs cfg Suc.prems(1) lt] show ?case
  proof (elim disjE exE conjE)
    fix st' genes
    assume eq: "generations_loop D rnd cfg c st = generations_loop D rnd cfg c st'"
      and g: "gen st' = gen st + 1" and ok': "search_ok g st'"
      and b: "bestEver st' = Some genes" "defined_genes genes"
    from Suc(2) g have "n = nat (generations cfg - gen st')" by simp
    from Suc(1)[OF this ok'] b eq show ?thesis by auto
  qed blast
qed

declare generations_loop.simps [simp del]

lemma genetic_map_returns:
  assumes v: "valid_input c hw" and rnd: "draws_in_range D rnd"
    and cfg: "1 \<le> populationSize (new_GeneticSwapOptimizer_config D opts)"
             "1 \<le> generations (new_GeneticSwapOptimizer_config D opts)"
             "1 \<le> tournamentSize (new_GeneticSwapOptimizer_config D opts)"
  shows "\<exists>r. GeneticSwapOptimizer_map D rnd opts c hw = Inr r \<and> counters_agree r
            \<and> mset (finalLayout r) = mset (map Some [0..<nat (nQubits c)])
            \<and> distancePenalty r \<noteq> Infinity"
proof -
  let ?cfg = "new_GeneticSwapOptimizer_config D opts"
  let ?g = "graph hw"
  from v have c: "valid_circuit c" and fits: "nat (nQubits c) \<le> length ?g"
    and vs0: "getValidSwaps hw \<noteq> []"
    by (simp_all add: valid_input_def)
  from valid_input_built[OF v] have hw: "same_built ?g hw" by (simp add: same_built_def)
  note conn = valid_input_connected[OF v]
  have vs: "\<forall>hw'. same_built ?g hw' \<longrightarrow> getValidSwaps hw' \<noteq> []"
  proof (intro allI impI)
    fix hw' assume "same_built ?g hw'"
    then have "graph hw' = graph hw" by (simp add: same_built_def)
    from getValidSwaps_graph[OF this] vs0 show "getValidSwaps hw' \<noteq> []" by simp
  qed
  obtain pop i where init: "initializePopulation D rnd ?cfg hw 0 = (pop, i)"
    by (cases "initializePopulation D rnd ?cfg hw 0")
  from initial_population_defined[OF rnd vs0, of ?cfg "nat (populationSize ?cfg)" 0] init
  have pop: "length pop = nat (populationSize ?cfg)" "\<forall>ch \<in> set pop. defined_genes ch"
    by (simp_all add: initializePopulation_def)
  from pop(1) cfg(1) have "pop \<noteq> []" by auto
  let ?st = "\<lparr>population = pop, bestEver = None, bestEverFitness = NegInfinity,
              plateauCounter = 0, mutationRate = initialMutationRate ?cfg, gen = 0,
              cache = (\<lambda>_. None), hardware = hw, calls = i\<rparr>"
  have ok: "search_ok ?g ?st"
    using pop(2) \<open>pop \<noteq> []\<close> hw by (simp add: search_ok_def cache_finite_def)
  from cfg(2) have start: "gen ?st < generations ?cfg
      \<or> (\<exists>genes. bestEver ?st = Some genes \<and> defined_genes genes)" by simp
  from generations_loop_returns[OF rnd conn fits c vs cfg(1,3) ok start] obtain st' genes where
    loop: "generations_loop D rnd ?cfg c ?st = Inr st'"
    and genes: "bestEver st' = Some genes" "defined_genes genes"
    and hw': "same_built ?g (hardware st')"
    by blast
  from replay_returns[OF hw' conn fits genes(2) c] obtain s where
    s: "replay (Some genes) c (hardware st') = Inr s" "replay_ok c ?g s" by blast
  then have ap: "applyChromosome (Some genes) c (hardware st') = Inr (result_of s)"
    by (simp add: applyChromosome_def)
  have "genetic_search D rnd opts c hw = Inr st'"
    by (simp add: genetic_search_def Let_def init loop)
  then have "GeneticSwapOptimizer_map D rnd opts c hw = Inr (result_of s)"
    by (simp add: GeneticSwapOptimizer_map_def genes(1) ap)
  moreover from replay_counters[OF ap] have "counters_agree (result_of s)" .
  moreover from s(2) have "mset (finalLayout (result_of s)) = mset (map Some [0..<nat (nQubits c)])"
    "distancePenalty (result_of s) \<noteq> Infinity"
    by (simp_all add: replay_ok_def result_of_def)
  ultimately show ?thesis by blast
qed


text \<open>
  On a valid circuit that fits a device of one of the three shapes with at least one edge,
  and with \<open>Math.random()\<close> in \<open>[0, 1)\<close>, \<open>GeneticSwapOptimizer.map()\<close> configured with
  \<open>generations = 0\<close> or with \<open>populationSize = 1\<close> (the other options left out) returns
  without an error: a result whose counters agree with its steps, whose final layout is a
  permutation of \<open>0..nQubits-1\<close> and whose distance penalty is finite. Both loops of the
  search are bounded, the outer one by the generation cap and the inner one by the
  population size, and the replay by the length of the chromosome.
\<close>

lemma genetic_returns_on_device_with_edge:
  assumes "valid_input c hw" and "draws_in_range D rnd"
    and "opts = no_options\<lparr>o_generations := Some 0\<rparr> \<or> opts = no_options\<lparr>o_populationSize := Some 1\<rparr>"
  shows "\<exists>r. GeneticSwapOptimizer_map D rnd opts c hw = Inr r \<and> counters_agree r
            \<and> mset (finalLayout r) = mset (map Some [0..<nat (nQubits c)])
            \<and> distancePenalty r \<noteq> Infinity"
proof (rule genetic_map_returns[OF assms(1,2)])
  from assms(3) show "1 \<le> populationSize (new_GeneticSwapOptimizer_config D opts)"
    "1 \<le> generations (new_GeneticSwapOptimizer_config D opts)"
    "1 \<le> tournamentSize (new_GeneticSwapOptimizer_config D opts)"
    by (auto simp: new_GeneticSwapOptimizer_config_def no_options_def js_or_def)
qed

lemma scenario_A_valid: "valid_input cx02 chain3"
proof -
  have "length (graph chain3) = 3" "getValidSwaps chain3 \<noteq> []" by code_simp+
  moreover have "valid_circuit cx02" by (simp add: valid_circuit_def cx02_def)
  moreover have "cache_sound chain3 \<and> graph chain3
      = buildGraph ''lnn'' \<lparr>p_qubits = Some 3, p_rows = None, p_cols = None\<rparr>"
    by (simp add: chain3_def new_HardwareTopology_def cache_sound_def)
  ultimately show ?thesis
    unfolding valid_input_def by (auto simp: cx02_def)
qed

lemma always_zero_in_range: "draws_in_range exact_double always_zero"
  by (simp add: draws_in_range_def exact_double_def always_zero_def)

lemma genetic_scenario_A:
  "(\<exists>r. GeneticSwapOptimizer_map exact_double always_zero (no_options\<lparr>o_generations := Some 0\<rparr>)
            cx02 chain3 = Inr r
         \<and> counters_agree r \<and> distancePenalty r \<noteq> Infinity)
   \<and> (\<exists>r. GeneticSwapOptimizer_map exact_double always_zero (no_options\<lparr>o_populationSize := Some 1\<rparr>)
            cx02 chain3 = Inr r
         \<and> counters_agree r \<and> distancePenalty r \<noteq> Infinity)"
  using genetic_returns_on_device_with_edge[OF scenario_A_valid always_zero_in_range,
      of "no_options\<lparr>o_generations := Some 0\<rparr>"]
    genetic_returns_on_device_with_edge[OF scenario_A_valid always_zero_in_range,
      of "no_options\<lparr>o_populationSize := Some 1\<rparr>"]
  by blast

section \<open>The genetic search on a device without an edge\<close>

text \<open>With an empty edge list every gene drawn is \<open>validSwaps[0]\<close>, which is \<open>undefined\<close>, and
  every chromosome has at least one gene.\<close>

lemma random_gene_no_edge: "random_gene D rnd [] i = None"
  by (simp add: random_gene_def js_nth_def)

lemma random_genes_no_edge:
  "fst (random_genes D rnd [] (Suc n) i) = None # fst (random_genes D rnd [] n (Suc i))"
  by (simp add: case_prod_beta random_gene_no_edge)

lemma initial_population_no_edge:
  assumes "draws_in_range D rnd" and "0 < maxSwapsPerChromosome cfg"
  shows "\<exists>ch rest. fst (initial_population D rnd cfg [] (Suc n) i) = (None # ch) # rest"
proof -
  from random_index_range[OF assms, of i]
  have "0 \<le> random_index D rnd i (maxSwapsPerChromosome cfg)" by simp
  then obtain k where "nat (random_index D rnd i (maxSwapsPerChromosome cfg) + 1) = Suc k"
    by (cases "nat (random_index D rnd i (maxSwapsPerChromosome cfg) + 1)") auto
  then show ?thesis
    by (simp add: Let_def case_prod_beta random_gene_no_edge)
qed

text \<open>The first generation computes the memo key of the first chromosome, and
  \<open>chromosomeKey\<close> destructures the \<open>undefined\<close> gene.\<close>

lemma genetic_search_no_edge:
  assumes rnd: "draws_in_range D rnd" and vs: "getValidSwaps hw = []"
    and cfg: "1 \<le> populationSize (new_GeneticSwapOptimizer_config D opts)"
             "1 \<le> generations (new_GeneticSwapOptimizer_config D opts)"
             "0 < maxSwapsPerChromosome (new_GeneticSwapOptimizer_config D opts)"
  shows "genetic_search D rnd opts c hw = Inl TypeError"
proof -
  let ?cfg = "new_GeneticSwapOptimizer_config D opts"
  from cfg(1) obtain n where n: "nat (populationSize ?cfg) = Suc n"
    by (cases "nat (populationSize ?cfg)") auto
  from initial_population_no_edge[OF rnd cfg(3), of n 0] obtain ch rest where
    pop: "fst (initial_population D rnd ?cfg [] (Suc n) 0) = (None # ch) # rest" by blast
  obtain i where init: "initializePopulation D rnd ?cfg hw 0 = ((None # ch) # rest, i)"
    using pop by (cases "initial_population D rnd ?cfg [] (Suc n) 0")
      (simp add: initializePopulation_def vs n)
  let ?st = "\<lparr>population = (None # ch) # rest, bestEver = None, bestEverFitness = NegInfinity,
              plateauCounter = 0, mutationRate = initialMutationRate ?cfg, gen = 0,
              cache = (\<lambda>_. None), hardware = hw, calls = i\<rparr>"
  have "generations_loop D rnd ?cfg c ?st = Inl TypeError"
    using cfg(2) by (subst generations_loop.simps) (simp add: chromosomeKey_def)
  then show ?thesis
    by (simp add: genetic_search_def Let_def init)
qed

text \<open>
  Claim C8 at the one-qubit circuit \<open>h(0)\<close> on the one-qubit chain, a valid circuit and a
  device of a recognized shape. With \<open>generations = 0\<close>, or with \<open>populationSize = 1\<close>, and
  \<open>Math.random()\<close> in \<open>[0, 1)\<close>, \<open>GeneticSwapOptimizer.map()\<close> does not return a MappingResult:
  the device has no edge, every gene of the initial population is \<open>undefined\<close>, and
  \<open>chromosomeKey\<close> throws a TypeError in the first generation.
\<close>

theorem genetic_throws_on_device_without_edge:
  assumes "draws_in_range D rnd"
    and "opts = no_options\<lparr>o_generations := Some 0\<rparr> \<or> opts = no_options\<lparr>o_populationSize := Some 1\<rparr>"
  shows "GeneticSwapOptimizer_map D rnd opts one_h chain1 = Inl TypeError"
proof -
  have "getValidSwaps chain1 = []" by code_simp
  moreover from assms(2) have "1 \<le> populationSize (new_GeneticSwapOptimizer_config D opts)"
    "1 \<le> generations (new_GeneticSwapOptimizer_config D opts)"
    "0 < maxSwapsPerChromosome (new_GeneticSwapOptimizer_config D opts)"
    by (auto simp: new_GeneticSwapOptimizer_config_def no_options_def js_or_def)
  ultimately have "genetic_search D rnd opts one_h chain1 = Inl TypeError"
    using genetic_search_no_edge[OF assms(1)] by blast
  then show ?thesis by (simp add: GeneticSwapOptimizer_map_def)
qed

theorem genetic_throws_on_device_without_edge_witness:
  "draws_in_range exact_double always_zero
   \<and> GeneticSwapOptimizer_map exact_double always_zero (no_options\<lparr>o_generations := Some 0\<rparr>)
        one_h chain1 = Inl TypeError
   \<and> GeneticSwapOptimizer_map exact_double always_zero (no_options\<lparr>o_populationSize := Some 1\<rparr>)
        one_h chain1 = Inl TypeError"
  using genetic_throws_on_device_without_edge[OF always_zero_in_range,
      of "no_options\<lparr>o_generations := Some 0\<rparr>"]
    genetic_throws_on_device_without_edge[OF always_zero_in_range,
      of "no_options\<lparr>o_populationSize := Some 1\<rparr>"]
    always_zero_in_range
  by simp

section \<open>Options equal to zero\<close>

text \<open>
  Claim C9, as stated: a GeneticSwapOptimizer built with \<open>generations = 0\<close> runs 50
  generations, and a zero-qubit device is not expressible through the constructor. On
  scenario A, with \<open>generations = 0\<close>, a population of one and \<open>Math.random()\<close> returning
  \<open>0\<close>, the generation loop is left by its \<open>break\<close> in the generation with index 10, the
  plateau counter having reached the threshold 10: 11 generations are evaluated, not 50.
  And \<open>lnn\<close> with \<open>qubits = -1\<close> is built with an empty graph, a zero-qubit device.
\<close>

theorem zero_options_counterexample:
  "map_sum id gen (genetic_search exact_double always_zero
       (no_options\<lparr>o_populationSize := Some 1, o_generations := Some 0\<rparr>) cx02 chain3) = Inr 10
   \<and> map_sum id plateauCounter (genetic_search exact_double always_zero
       (no_options\<lparr>o_populationSize := Some 1, o_generations := Some 0\<rparr>) cx02 chain3) = Inr 10
   \<and> graph (new_HardwareTopology ''lnn'' \<lparr>p_qubits = Some (- 1), p_rows = None, p_cols = None\<rparr>) = []"
  by code_simp

lemma genetic_search_gen:
  assumes "genetic_search D rnd opts c hw = Inr st"
  shows "0 \<le> gen st \<and> gen st \<le> max 0 (generations (new_GeneticSwapOptimizer_config D opts))"
proof -
  let ?cfg = "new_GeneticSwapOptimizer_config D opts"
  obtain pop i where init: "initializePopulation D rnd ?cfg hw 0 = (pop, i)"
    by (cases "initializePopulation D rnd ?cfg hw 0")
  let ?st = "\<lparr>population = pop, bestEver = None, bestEverFitness = NegInfinity,
              plateauCounter = 0, mutationRate = initialMutationRate ?cfg, gen = 0,
              cache = (\<lambda>_. None), hardware = hw, calls = i\<rparr>"
  from assms have "generations_loop D rnd ?cfg c ?st = Inr st"
    by (simp add: genetic_search_def Let_def init)
  from generations_loop_gen[OF this] show ?thesis by simp
qed

text \<open>
  Claim C9, amended. Options are read with \<open>||\<close>, so a value \<open>0\<close> is replaced by the default:
  a CostModel built with \<open>alpha = 0\<close> (\<open>beta = 0\<close>, \<open>gamma = 0\<close>) has weight 10 (1, 5), a
  GeneticSwapOptimizer built with \<open>generations = 0\<close> has the generation cap 50, so that its
  loop is left with \<open>gen\<close> at most 50, and an \<open>lnn\<close> or \<open>star\<close> topology built with \<open>qubits = 0\<close>
  is the 5-qubit device. No configuration gives a zero weight or a zero generation cap, and
  the qubit count the two shapes use is never zero: the star graph is never empty, and the
  chain is empty exactly for a negative count.
\<close>

theorem zero_options_fall_back_to_defaults:
  "alpha (new_CostModel (cm\<lparr>c_alpha := Some 0\<rparr>)) = 10
   \<and> beta (new_CostModel (cm\<lparr>c_beta := Some 0\<rparr>)) = 1
   \<and> gamma (new_CostModel (cm\<lparr>c_gamma := Some 0\<rparr>)) = 5
   \<and> generations (new_GeneticSwapOptimizer_config D (opts\<lparr>o_generations := Some 0\<rparr>)) = 50
   \<and> (\<forall>st. genetic_search D rnd (opts\<lparr>o_generations := Some 0\<rparr>) c hw = Inr st
          \<longrightarrow> 0 \<le> gen st \<and> gen st \<le> 50)
   \<and> graph (new_HardwareTopology ''lnn'' (ps\<lparr>p_qubits := Some 0\<rparr>))
       = [(0, [1]), (1, [0, 2]), (2, [1, 3]), (3, [2, 4]), (4, [3])]
   \<and> graph (new_HardwareTopology ''star'' (ps\<lparr>p_qubits := Some 0\<rparr>))
       = [(0, [1, 2, 3, 4]), (1, [0]), (2, [0]), (3, [0]), (4, [0])]
   \<and> alpha (new_CostModel cm) \<noteq> 0 \<and> beta (new_CostModel cm) \<noteq> 0 \<and> gamma (new_CostModel cm) \<noteq> 0
   \<and> generations (new_GeneticSwapOptimizer_config D opts) \<noteq> 0
   \<and> js_or (p_qubits ps) 5 \<noteq> 0
   \<and> graph (new_HardwareTopology ''star'' ps) \<noteq> []
   \<and> (graph (new_HardwareTopology ''lnn'' ps) = [] \<longleftrightarrow> (\<exists>q. p_qubits ps = Some q \<and> q < 0))"
proof -
  have or_nz: "js_or x d \<noteq> 0" if "d \<noteq> 0" for x :: "'z::zero option" and d
    using that by (simp add: js_or_def split: option.splits)
  have five: "[0..<nat 5] = [0, 1, 2, 3, 4]" "[1..<nat 5] = [1, 2, 3, 4]"
    by (simp_all add: upt_rec)
  have lnn5: "lnn_graph 5 = [(0, [1]), (1, [0, 2]), (2, [1, 3]), (3, [2, 4]), (4, [3])]"
    unfolding lnn_graph_def five by simp
  have star5: "star_graph 5 = [(0, [1, 2, 3, 4]), (1, [0]), (2, [0]), (3, [0]), (4, [0])]"
    unfolding star_graph_def five by simp
  have lnn_empty: "(lnn_graph n = []) = (n \<le> 0)" for n
    by (simp add: lnn_graph_def)
  have cap: "generations (new_GeneticSwapOptimizer_config D (opts\<lparr>o_generations := Some 0\<rparr>)) = 50"
    by (simp add: new_GeneticSwapOptimizer_config_def js_or_def)
  have "\<forall>st. genetic_search D rnd (opts\<lparr>o_generations := Some 0\<rparr>) c hw = Inr st
          \<longrightarrow> 0 \<le> gen st \<and> gen st \<le> 50"
    using genetic_search_gen[of D rnd "opts\<lparr>o_generations := Some 0\<rparr>" c hw] cap by auto
  moreover have "(graph (new_HardwareTopology ''lnn'' ps) = []) = (\<exists>q. p_qubits ps = Some q \<and> q < 0)"
    by (auto simp: new_HardwareTopology_def buildGraph_def lnn_empty js_or_def split: option.splits)
  moreover have "graph (new_HardwareTopology ''star'' ps) \<noteq> []"
    by (simp add: new_HardwareTopology_def buildGraph_def star_graph_def)
  moreover have "graph (new_HardwareTopology ''lnn'' (ps\<lparr>p_qubits := Some 0\<rparr>))
       = [(0, [1]), (1, [0, 2]), (2, [1, 3]), (3, [2, 4]), (4, [3])]"
    by (simp add: new_HardwareTopology_def buildGraph_def js_or_def lnn5)
  moreover have "graph (new_HardwareTopology ''star'' (ps\<lparr>p_qubits := Some 0\<rparr>))
       = [(0, [1, 2, 3, 4]), (1, [0]), (2, [0]), (3, [0]), (4, [0])]"
    by (simp add: new_HardwareTopology_def buildGraph_def js_or_def star5)
  moreover have "alpha (new_CostModel (cm\<lparr>c_alpha := Some 0\<rparr>)) = 10
     \<and> beta (new_CostModel (cm\<lparr>c_beta := Some 0\<rparr>)) = 1
     \<and> gamma (new_CostModel (cm\<lparr>c_gamma := Some 0\<rparr>)) = 5"
    by (simp add: new_CostModel_def js_or_def)
  moreover have "alpha (new_CostModel cm) \<noteq> 0 \<and> beta (new_CostModel cm) \<noteq> 0
     \<and> gamma (new_CostModel cm) \<noteq> 0
     \<and> generations (new_GeneticSwapOptimizer_config D opts) \<noteq> 0 \<and> js_or (p_qubits ps) 5 \<noteq> 0"
    by (simp add: new_CostModel_def new_GeneticSwapOptimizer_config_def or_nz)
  ultimately show ?thesis using cap by blast
qed

theorem zero_options_fall_back_to_defaults_witness:
  "(\<exists>st. genetic_search exact_double always_zero
            (no_options\<lparr>o_populationSize := Some 1, o_generations := Some 0\<rparr>) cx02 chain3 = Inr st
         \<and> 0 \<le> gen st \<and> gen st \<le> 50)
   \<and> graph (new_HardwareTopology ''lnn'' \<lparr>p_qubits = Some (- 1), p_rows = None, p_cols = None\<rparr>) = []
   \<and> graph (new_HardwareTopology ''lnn'' \<lparr>p_qubits = Some 0, p_rows = None, p_cols = None\<rparr>)
       = [(0, [1]), (1, [0, 2]), (2, [1, 3]), (3, [2, 4]), (4, [3])]"
proof -
  let ?opts = "no_options\<lparr>o_populationSize := Some 1\<rparr> :: rat genetic_options"
  let ?ps = "\<lparr>p_qubits = Some (- 1), p_rows = None, p_cols = None\<rparr>"
  have "map_sum id gen (genetic_search exact_double always_zero
          (?opts\<lparr>o_generations := Some 0\<rparr>) cx02 chain3) = Inr 10"
    by code_simp
  then obtain st where st: "genetic_search exact_double always_zero
          (?opts\<lparr>o_generations := Some 0\<rparr>) cx02 chain3 = Inr st"
    by (cases "genetic_search exact_double always_zero (?opts\<lparr>o_generations := Some 0\<rparr>) cx02 chain3")
       auto
  note inst = zero_options_fall_back_to_defaults[of
      "\<lparr>c_alpha = None, c_beta = None, c_gamma = None\<rparr>" exact_double ?opts always_zero cx02 chain3 ?ps]
  from inst st have "0 \<le> gen st \<and> gen st \<le> 50" by blast
  moreover from inst have "graph (new_HardwareTopology ''lnn'' ?ps) = []" by simp
  moreover from inst have "graph (new_HardwareTopology ''lnn'' (?ps\<lparr>p_qubits := Some 0\<rparr>))
       = [(0, [1]), (1, [0, 2]), (2, [1, 3]), (3, [2, 4]), (4, [3])]" by blast
  ultimately show ?thesis using st by auto
qed

end
